theory Spec2Isabelle
  imports Main "HOL-Library.Word" "HOL-Library.List_Lexorder"
begin

section \<open>Strings of the host language\<close>

text \<open>
  The cleanup command of the extension (\<^verbatim>\<open>extension.cleanupGitignore\<close>, registered as
  \<^verbatim>\<open>cleanupGitignoreCommand\<close>) reads the text of the \<^verbatim>\<open>.gitignore\<close> document and
  replaces it by \<^verbatim>\<open>finalContent\<close>, computed in one of two branches. The function
  \<open>organize\<close> below is that computation; the dialogs and the edit of the document are
  left out.

  The text is a JavaScript string: a finite sequence of 16-bit UTF-16 code units. The
  default \<^verbatim>\<open>Array.prototype.sort()\<close> compares strings code unit by code unit, which
  is the lexicographic order of \<^theory_text>\<open>HOL-Library.List_Lexorder\<close> on lists of words.
\<close>

type_synonym cu = "16 word"
type_synonym jsstring = "cu list"

definition LF :: cu where "LF = 0x0A"
definition CR :: cu where "CR = 0x0D"
definition HASH :: cu where "HASH = 0x23"

text \<open>An ASCII literal as a JavaScript string.\<close>

definition js :: "string \<Rightarrow> jsstring" where
  "js s = map (\<lambda>c. of_nat (of_char c)) s"

text \<open>
  \<^verbatim>\<open>String.prototype.trim\<close> removes the code units of \<^verbatim>\<open>WhiteSpace\<close> and
  \<^verbatim>\<open>LineTerminator\<close>: TAB, LF, VT, FF, CR, SP, NBSP, U+1680, U+2000..U+200A,
  U+2028, U+2029, U+202F, U+205F, U+3000 and U+FEFF.
\<close>

definition ws :: "cu \<Rightarrow> bool" where
  "ws c \<longleftrightarrow> c = 0x09 \<or> c = 0x0A \<or> c = 0x0B \<or> c = 0x0C \<or> c = 0x0D \<or> c = 0x20
    \<or> c = 0xA0 \<or> c = 0x1680 \<or> (0x2000 \<le> c \<and> c \<le> 0x200A) \<or> c = 0x2028
    \<or> c = 0x2029 \<or> c = 0x202F \<or> c = 0x205F \<or> c = 0x3000 \<or> c = 0xFEFF"

definition trimStart :: "jsstring \<Rightarrow> jsstring" where
  "trimStart s = dropWhile ws s"

definition trimEnd :: "jsstring \<Rightarrow> jsstring" where
  "trimEnd s = rev (dropWhile ws (rev s))"

definition trim :: "jsstring \<Rightarrow> jsstring" where
  "trim s = trimEnd (trimStart s)"

text \<open>\<^verbatim>\<open>s.startsWith('#')\<close>\<close>

fun startsWithHash :: "jsstring \<Rightarrow> bool" where
  "startsWithHash [] = False"
| "startsWithHash (c # cs) = (c = HASH)"

text \<open>
  \<^verbatim>\<open>content.split(/\r?\n/)\<close>: the matcher is tried at every position from left to
  right; at a CR directly followed by LF it consumes both, at an LF it consumes one
  code unit, anywhere else it fails and the code unit stays in the current piece.
  The result always has at least one piece (the empty string gives one empty piece).
\<close>

fun consFirst :: "cu \<Rightarrow> jsstring list \<Rightarrow> jsstring list" where
  "consFirst c [] = [[c]]"
| "consFirst c (l # ls) = (c # l) # ls"

fun split_lines :: "jsstring \<Rightarrow> jsstring list" where
  "split_lines [] = [[]]"
| "split_lines [c] = (if c = LF then [[], []] else [[c]])"
| "split_lines (c # d # ds) =
     (if c = LF then [] # split_lines (d # ds)
      else if c = CR \<and> d = LF then [] # split_lines ds
      else consFirst c (split_lines (d # ds)))"

text \<open>\<^verbatim>\<open>Array.prototype.join\<close>\<close>

fun join :: "jsstring \<Rightarrow> jsstring list \<Rightarrow> jsstring" where
  "join sep [] = []"
| "join sep [x] = x"
| "join sep (x # y # ys) = x @ sep @ join sep (y # ys)"

text \<open>
  A JavaScript \<^verbatim>\<open>Set\<close> of strings keeps its elements in insertion order, so it is a
  duplicate-free list; \<^verbatim>\<open>add\<close> of a present element changes nothing.
\<close>

definition set_add :: "jsstring \<Rightarrow> jsstring list \<Rightarrow> jsstring list" where
  "set_add x s = (if x \<in> set s then s else s @ [x])"

text \<open>\<^verbatim>\<open>Array.from(new Set(xs))\<close>\<close>

definition new_Set :: "jsstring list \<Rightarrow> jsstring list" where
  "new_Set xs = foldl (\<lambda>s x. set_add x s) [] xs"

section \<open>Flat sort\<close>

text \<open>
  The branch taken when the label of the chosen mode starts with \<^verbatim>\<open>Flat Sort\<close>. The
  state of its loop is the set \<^verbatim>\<open>uniqueLines\<close> and the array \<^verbatim>\<open>cleanedLines\<close>; a
  line is kept when its trimmed form is not empty, does not start with \<^verbatim>\<open>#\<close> and is
  not in the set yet. The result is
  \<^verbatim>\<open>cleanedLines.sort().join('\n') + '\n'\<close>.
\<close>

record flat_state =
  uniqueLines :: "jsstring list"
  cleanedLines :: "jsstring list"

definition flat_step :: "flat_state \<Rightarrow> jsstring \<Rightarrow> flat_state" where
  "flat_step st line =
     (let trimmed = trim line in
      if trimmed \<noteq> [] \<and> \<not> startsWithHash trimmed \<and> trimmed \<notin> set (uniqueLines st)
      then \<lparr>uniqueLines = set_add trimmed (uniqueLines st),
            cleanedLines = cleanedLines st @ [trimmed]\<rparr>
      else st)"

definition flat_clean :: "jsstring list \<Rightarrow> jsstring list" where
  "flat_clean lines = cleanedLines (foldl flat_step \<lparr>uniqueLines = [], cleanedLines = []\<rparr> lines)"

definition organize_flat :: "jsstring \<Rightarrow> jsstring" where
  "organize_flat content = join [LF] (sort (flat_clean (split_lines content))) @ [LF]"

section \<open>Section-aware sort\<close>

text \<open>
  The other branch. A \<^verbatim>\<open>Section\<close> holds the comment lines as they are in the input
  and the trimmed rule lines.
\<close>

record Section =
  comments :: "jsstring list"
  rules :: "jsstring list"

definition empty_section :: Section where
  "empty_section = \<lparr>comments = [], rules = []\<rparr>"

text \<open>One iteration of the parsing loop on the pair (sections, currentSection).\<close>

definition smart_step :: "Section list \<times> Section \<Rightarrow> jsstring \<Rightarrow> Section list \<times> Section" where
  "smart_step st line =
     (let sections = fst st; currentSection = snd st; trimmed = trim line in
      if trimmed = [] then
        (if comments currentSection \<noteq> [] \<or> rules currentSection \<noteq> []
         then (sections @ [currentSection], empty_section)
         else (sections, currentSection))
      else if startsWithHash trimmed then
        (let st' = (if rules currentSection \<noteq> []
                    then (sections @ [currentSection], empty_section)
                    else (sections, currentSection))
         in (fst st', (snd st')\<lparr>comments := comments (snd st') @ [line]\<rparr>))
      else (sections, currentSection\<lparr>rules := rules currentSection @ [trimmed]\<rparr>))"

definition smart_loop :: "jsstring list \<Rightarrow> Section list \<times> Section" where
  "smart_loop lines = foldl smart_step ([], empty_section) lines"

text \<open>The push of the last section after the loop.\<close>

definition push_last :: "Section list \<times> Section \<Rightarrow> Section list" where
  "push_last st =
     (if comments (snd st) \<noteq> [] \<or> rules (snd st) \<noteq> [] then fst st @ [snd st] else fst st)"

definition parse_sections :: "jsstring list \<Rightarrow> Section list" where
  "parse_sections lines = push_last (smart_loop lines)"

text \<open>
  The rendering of a section: \<^verbatim>\<open>Array.from(new Set(section.rules)).sort()\<close>, the
  header (the comments joined by line feeds and one more line feed, when there are
  comments), the body (the rules joined by line feeds), and the trimmed concatenation
  of the two. Empty renderings are filtered out, the others are joined by two line feeds
  and one line feed is appended.
\<close>

definition uniqueRules :: "Section \<Rightarrow> jsstring list" where
  "uniqueRules sec = sort (new_Set (rules sec))"

definition render :: "Section \<Rightarrow> jsstring" where
  "render sec =
     (let header = (if comments sec \<noteq> [] then join [LF] (comments sec) @ [LF] else []);
          body = join [LF] (uniqueRules sec)
      in if header = [] \<and> body = [] then [] else trim (header @ body))"

definition render_all :: "Section list \<Rightarrow> jsstring" where
  "render_all secs = join [LF, LF] (filter (\<lambda>s. s \<noteq> []) (map render secs)) @ [LF]"

definition organize_smart :: "jsstring \<Rightarrow> jsstring" where
  "organize_smart content = render_all (parse_sections (split_lines content))"

text \<open>The two modes offered by the quick pick, and the function of the specification.\<close>

datatype SortMode = Smart | Flat

fun organize :: "jsstring \<Rightarrow> SortMode \<Rightarrow> jsstring" where
  "organize text Flat = organize_flat text"
| "organize text Smart = organize_smart text"

section \<open>Notions used to state the properties\<close>

text \<open>
  The loop bodies classify a line by its trimmed form: empty, starting with
  \<^verbatim>\<open>#\<close>, or anything else (a rule).
\<close>

definition is_comment :: "jsstring \<Rightarrow> bool" where
  "is_comment l = startsWithHash (trim l)"

definition is_rule :: "jsstring \<Rightarrow> bool" where
  "is_rule l = (trim l \<noteq> [] \<and> \<not> startsWithHash (trim l))"

text \<open>The rule lines of a list of lines, trimmed, in their order.\<close>

definition rule_lines :: "jsstring list \<Rightarrow> jsstring list" where
  "rule_lines ls = map trim (filter is_rule ls)"

definition ends_with_CR :: "jsstring \<Rightarrow> bool" where
  "ends_with_CR l = (l \<noteq> [] \<and> last l = CR)"

text \<open>A text holds a CR LF line ending when a carriage return stands directly before a line feed.\<close>

fun has_crlf :: "jsstring \<Rightarrow> bool" where
  "has_crlf [] = False"
| "has_crlf [c] = False"
| "has_crlf (c # d # s) = ((c = CR \<and> d = LF) \<or> has_crlf (d # s))"

text \<open>
  A document as the specification describes it: lines joined by LF or by CR LF. The
  flag of a gap is \<open>True\<close> for CR LF; gaps with no flag left take LF.
\<close>

fun join_mixed :: "jsstring list \<Rightarrow> bool list \<Rightarrow> jsstring" where
  "join_mixed [] seps = []"
| "join_mixed [l] seps = l"
| "join_mixed (l # l' # ls) seps =
     l @ (if seps \<noteq> [] \<and> hd seps then [CR, LF] else [LF]) @ join_mixed (l' # ls) (tl seps)"

text \<open>
  The order the specification names is that of code points. This is not a function of
  the program: \<open>code_points\<close> decodes UTF-16 as the specification of the language does
  (\<^verbatim>\<open>CodePointAt\<close>): a leading surrogate followed by a trailing surrogate is one code
  point, any other code unit stands for itself.
\<close>

definition is_surrogate :: "cu \<Rightarrow> bool" where
  "is_surrogate c = (0xD800 \<le> c \<and> c \<le> 0xDFFF)"

fun code_points :: "jsstring \<Rightarrow> int list" where
  "code_points [] = []"
| "code_points [c] = [uint c]"
| "code_points (c # d # cs) =
     (if 0xD800 \<le> c \<and> c \<le> 0xDBFF \<and> 0xDC00 \<le> d \<and> d \<le> 0xDFFF
      then (0x10000 + (uint c - 0xD800) * 0x400 + (uint d - 0xDC00)) # code_points cs
      else uint c # code_points (d # cs))"

section \<open>Notions used in the proofs\<close>

text \<open>
  Splitting a text at \<^verbatim>\<open>\r?\n\<close> removes one carriage return from the end of a piece
  that is followed by a line feed; \<open>unlines\<close> ends every line with a line feed.
\<close>

definition chomp_cr :: "jsstring \<Rightarrow> jsstring" where
  "chomp_cr l = (if l \<noteq> [] \<and> last l = CR then butlast l else l)"

definition unlines :: "jsstring list \<Rightarrow> jsstring" where
  "unlines T = concat (map (\<lambda>l. l @ [LF]) T)"

definition same_line :: "jsstring \<Rightarrow> jsstring \<Rightarrow> bool" where
  "same_line l l' = (l' = l \<or> l' = chomp_cr l)"

text \<open>
  What the parsing loop collects from lines without line feed: rules are trimmed,
  non-empty and do not start with \<^verbatim>\<open>#\<close>; comments are comment lines; a pushed section
  has a comment or a rule.
\<close>

definition good_rule :: "jsstring \<Rightarrow> bool" where
  "good_rule r = (r \<noteq> [] \<and> \<not> ws (hd r) \<and> \<not> ws (last r) \<and> \<not> startsWithHash r \<and> LF \<notin> set r)"

definition good_comment :: "jsstring \<Rightarrow> bool" where
  "good_comment c = (is_comment c \<and> LF \<notin> set c)"

definition good_section :: "Section \<Rightarrow> bool" where
  "good_section sec = ((comments sec \<noteq> [] \<or> rules sec \<noteq> [])
     \<and> (\<forall>c\<in>set (comments sec). is_comment c \<and> LF \<notin> set c)
     \<and> (\<forall>r\<in>set (rules sec). good_rule r))"

definition loop_inv :: "jsstring list \<Rightarrow> Section list \<times> Section \<Rightarrow> bool" where
  "loop_inv ls st = ((\<forall>sec\<in>set (fst st). good_section sec \<and> set (comments sec) \<subseteq> set ls)
     \<and> (\<forall>c\<in>set (comments (snd st)). is_comment c \<and> LF \<notin> set c \<and> c \<in> set ls)
     \<and> (\<forall>r\<in>set (rules (snd st)). good_rule r))"

text \<open>
  The lines of a rendered section: trimming the joined text of a section trims the
  start of its first line and the end of its last line. With rules present the last line
  is a rule, which is trimmed already.
\<close>

fun map_hd :: "('a \<Rightarrow> 'a) \<Rightarrow> 'a list \<Rightarrow> 'a list" where
  "map_hd f [] = []"
| "map_hd f (x # xs) = f x # xs"

definition map_last :: "('a \<Rightarrow> 'a) \<Rightarrow> 'a list \<Rightarrow> 'a list" where
  "map_last f xs = (if xs = [] then [] else butlast xs @ [f (last xs)])"

definition out_comments :: "Section \<Rightarrow> jsstring list" where
  "out_comments sec =
     (if rules sec = [] then map_last trimEnd (map_hd trimStart (comments sec))
      else map_hd trimStart (comments sec))"

definition out_lines :: "Section \<Rightarrow> jsstring list" where
  "out_lines sec = out_comments sec @ uniqueRules sec"

text \<open>The lines of the whole smart output: sections separated by one empty line.\<close>

fun all_lines :: "Section list \<Rightarrow> jsstring list" where
  "all_lines [] = [[]]"
| "all_lines [s] = out_lines s"
| "all_lines (s # s' # ss) = out_lines s @ [] # all_lines (s' # ss)"

text \<open>The section that the parser reads back from a rendered section.\<close>

definition read_section :: "Section \<Rightarrow> Section" where
  "read_section sec = \<lparr>comments = map chomp_cr (out_comments sec), rules = uniqueRules sec\<rparr>"

section \<open>Trimming\<close>

lemma ws_LF [simp]: "ws LF" by (simp add: ws_def LF_def)
lemma ws_CR [simp]: "ws CR" by (simp add: ws_def CR_def)
lemma not_ws_HASH [simp]: "\<not> ws HASH" by (simp add: ws_def HASH_def)

lemma dropWhile_all_Nil: "(\<forall>x\<in>set (dropWhile P xs). P x) \<longleftrightarrow> dropWhile P xs = []"
proof
  assume a: "\<forall>x\<in>set (dropWhile P xs). P x"
  show "dropWhile P xs = []"
  proof (rule ccontr)
    assume n: "dropWhile P xs \<noteq> []"
    then have "\<not> P (hd (dropWhile P xs))" by (rule hd_dropWhile)
    moreover have "hd (dropWhile P xs) \<in> set (dropWhile P xs)" using n by simp
    ultimately show False using a by blast
  qed
next
  assume "dropWhile P xs = []"
  then show "\<forall>x\<in>set (dropWhile P xs). P x" by (simp only: list.set ball_empty)
qed

lemma trim_Nil [simp]: "trim [] = []"
  by (simp add: trim_def trimEnd_def trimStart_def)

lemma trim_eq_Nil: "trim s = [] \<longleftrightarrow> (\<forall>c\<in>set s. ws c)"
proof -
  have "trim s = [] \<longleftrightarrow> (\<forall>x\<in>set (dropWhile ws s). ws x)"
    by (simp add: trim_def trimEnd_def trimStart_def dropWhile_eq_Nil_conv)
  also have "\<dots> \<longleftrightarrow> dropWhile ws s = []" by (rule dropWhile_all_Nil)
  also have "\<dots> \<longleftrightarrow> (\<forall>c\<in>set s. ws c)" by (simp add: dropWhile_eq_Nil_conv)
  finally show ?thesis .
qed

lemma set_trim: "set (trim s) \<subseteq> set s"
proof
  fix x assume "x \<in> set (trim s)"
  then have "x \<in> set (dropWhile ws (rev (dropWhile ws s)))"
    by (simp add: trim_def trimEnd_def trimStart_def)
  then have "x \<in> set (rev (dropWhile ws s))" by (rule set_dropWhileD)
  then have "x \<in> set (dropWhile ws s)" by simp
  then show "x \<in> set s" by (rule set_dropWhileD)
qed

lemma trim_decomp:
  assumes "\<forall>c\<in>set w1. ws c" "\<forall>c\<in>set w2. ws c" "m \<noteq> []" "\<not> ws (hd m)" "\<not> ws (last m)"
  shows "trimStart (w1 @ m @ w2) = m @ w2" "trimEnd (w1 @ m @ w2) = w1 @ m" "trim (w1 @ m @ w2) = m"
proof -
  obtain a m' where m: "m = a # m'" using assms(3) by (cases m) auto
  obtain m'' b where m2: "m = m'' @ [b]" using assms(3) by (cases m rule: rev_cases) auto
  have a: "\<not> ws a" using assms(4) m by simp
  have b: "\<not> ws b" using assms(5) m2 by simp
  show s: "trimStart (w1 @ m @ w2) = m @ w2"
    using assms(1) a unfolding trimStart_def m by (simp add: dropWhile_append3)
  have "dropWhile ws (rev w2 @ rev m @ rev w1) = rev m @ rev w1"
    using assms(2) b unfolding m2 by (simp add: dropWhile_append3)
  then show "trimEnd (w1 @ m @ w2) = w1 @ m"
    unfolding trimEnd_def by simp
  have "dropWhile ws (rev w2 @ rev m) = rev m"
    using assms(2) b unfolding m2 by (simp add: dropWhile_append3)
  then show "trim (w1 @ m @ w2) = m"
    unfolding trim_def s unfolding trimEnd_def by simp
qed

lemma solid_decomp:
  assumes "trim l \<noteq> []"
  shows "\<exists>w1 w2. l = w1 @ trim l @ w2 \<and> (\<forall>c\<in>set w1. ws c) \<and> (\<forall>c\<in>set w2. ws c)
           \<and> \<not> ws (hd (trim l)) \<and> \<not> ws (last (trim l))"
proof -
  let ?a = "dropWhile ws l"
  have l: "l = takeWhile ws l @ ?a" by simp
  have a: "?a = rev (rev ?a)" by simp
  have "rev ?a = takeWhile ws (rev ?a) @ dropWhile ws (rev ?a)" by simp
  then have "?a = rev (dropWhile ws (rev ?a)) @ rev (takeWhile ws (rev ?a))"
    by (metis rev_append rev_rev_ident)
  then have a2: "?a = trim l @ rev (takeWhile ws (rev ?a))"
    by (simp add: trim_def trimEnd_def trimStart_def)
  have d: "dropWhile ws (rev ?a) \<noteq> []" using assms by (simp add: trim_def trimEnd_def trimStart_def)
  have h1: "\<not> ws (hd (dropWhile ws (rev ?a)))" using d by (rule hd_dropWhile)
  have "last (trim l) = hd (dropWhile ws (rev ?a))"
    using d by (simp add: trim_def trimEnd_def trimStart_def last_rev)
  then have lst: "\<not> ws (last (trim l))" using h1 by simp
  have ne: "?a \<noteq> []" using d by (metis dropWhile.simps(1) rev.simps(1))
  have "hd (trim l) = hd ?a" using a2 assms by (metis hd_append2)
  moreover have "\<not> ws (hd ?a)" using ne by (rule hd_dropWhile)
  ultimately have hdt: "\<not> ws (hd (trim l))" by simp
  have "l = takeWhile ws l @ trim l @ rev (takeWhile ws (rev ?a))"
    using l a2 by metis
  moreover have "\<forall>c\<in>set (takeWhile ws l). ws c" by (auto dest: set_takeWhileD)
  moreover have "\<forall>c\<in>set (rev (takeWhile ws (rev ?a))). ws c" by (auto dest: set_takeWhileD)
  ultimately show ?thesis using hdt lst by blast
qed

lemma trim_id: "s \<noteq> [] \<Longrightarrow> \<not> ws (hd s) \<Longrightarrow> \<not> ws (last s) \<Longrightarrow> trim s = s"
  using trim_decomp(3)[of "[]" "[]" s] by simp

lemma trimStart_id: "s \<noteq> [] \<Longrightarrow> \<not> ws (hd s) \<Longrightarrow> trimStart s = s"
  by (cases s) (auto simp: trimStart_def)

lemma trimEnd_id: "s \<noteq> [] \<Longrightarrow> \<not> ws (last s) \<Longrightarrow> trimEnd s = s"
  by (cases s rule: rev_cases) (auto simp: trimEnd_def)

lemma trim_hd_last: "trim s \<noteq> [] \<Longrightarrow> \<not> ws (hd (trim s)) \<and> \<not> ws (last (trim s))"
  using solid_decomp by blast

lemma trim_trim [simp]: "trim (trim s) = trim s"
proof (cases "trim s = []")
  case True then show ?thesis by simp
next
  case False then show ?thesis using trim_hd_last trim_id by blast
qed

lemma trim_append_ws: "\<forall>c\<in>set w. ws c \<Longrightarrow> trim (s @ w) = trim s"
proof (cases "trim s = []")
  case True
  assume "\<forall>c\<in>set w. ws c"
  then have "trim (s @ w) = []" using True by (auto simp: trim_eq_Nil)
  then show ?thesis using True by simp
next
  case False
  assume w: "\<forall>c\<in>set w. ws c"
  obtain w1 w2 where d: "s = w1 @ trim s @ w2" "\<forall>c\<in>set w1. ws c" "\<forall>c\<in>set w2. ws c"
    "\<not> ws (hd (trim s))" "\<not> ws (last (trim s))" using solid_decomp[OF False] by blast
  have "trim (w1 @ trim s @ (w2 @ w)) = trim s"
    by (rule trim_decomp(3)) (use d w False in auto)
  then show ?thesis using d(1) by (metis append.assoc)
qed

lemma trimStart_append: "trim l \<noteq> [] \<Longrightarrow> trimStart (l @ r) = trimStart l @ r"
proof -
  assume "trim l \<noteq> []"
  then obtain c where "c \<in> set l" "\<not> ws c" using trim_eq_Nil by blast
  then show ?thesis unfolding trimStart_def by (rule dropWhile_append1)
qed

lemma trimEnd_append: "trim l \<noteq> [] \<Longrightarrow> trimEnd (p @ l) = p @ trimEnd l"
proof -
  assume "trim l \<noteq> []"
  then obtain c where "c \<in> set l" "\<not> ws c" using trim_eq_Nil by blast
  then have "c \<in> set (rev l)" "\<not> ws c" by simp_all
  then have "dropWhile ws (rev l @ rev p) = dropWhile ws (rev l) @ rev p"
    by (rule dropWhile_append1)
  then show ?thesis unfolding trimEnd_def by simp
qed


section \<open>Splitting and joining lines\<close>

lemma LF_neq_CR [simp]: "LF \<noteq> CR" "CR \<noteq> LF"
  by (simp_all add: LF_def CR_def)

lemma chomp_cr_Nil [simp]: "chomp_cr [] = []"
  by (simp add: chomp_cr_def)

lemma chomp_cr_Cons2: "chomp_cr (c # d # l) = c # chomp_cr (d # l)"
  by (simp add: chomp_cr_def)

lemma chomp_cr_single: "chomp_cr [c] = (if c = CR then [] else [c])"
  by (simp add: chomp_cr_def)

lemma split_lines_Cons_LF [simp]: "split_lines (LF # rest) = [] # split_lines rest"
  by (cases rest) simp_all

lemma split_cons:
  "LF \<notin> set l \<Longrightarrow> split_lines (l @ LF # rest) = chomp_cr l # split_lines rest"
proof (induction l rule: induct_list012)
  case 1
  then show ?case by simp
next
  case (2 c)
  then show ?case by (cases rest) (auto simp: chomp_cr_single)
next
  case (3 c d l)
  then have "split_lines ((d # l) @ LF # rest) = chomp_cr (d # l) # split_lines rest" by simp
  with 3 show ?case by (auto simp: chomp_cr_Cons2)
qed

lemma split_no_LF: "LF \<notin> set l \<Longrightarrow> split_lines l = [l]"
  by (induction l rule: induct_list012) auto

lemma split_lines_not_Nil [simp]: "split_lines s \<noteq> []"
  by (induction s rule: split_lines.induct) (auto elim: consFirst.elims)

lemma split_lines_LF_free: "l \<in> set (split_lines s) \<Longrightarrow> LF \<notin> set l"
proof (induction s arbitrary: l rule: split_lines.induct)
  case 1
  then show ?case by simp
next
  case (2 c)
  then show ?case by (auto split: if_splits)
next
  case (3 c d ds)
  show ?case
  proof (cases "c = LF")
    case True
    with 3 show ?thesis by auto
  next
    case False
    show ?thesis
    proof (cases "c = CR \<and> d = LF")
      case True
      with 3 False show ?thesis by auto
    next
      case F2: False
      obtain h t where ht: "split_lines (d # ds) = h # t"
        using split_lines_not_Nil[of "d # ds"] by (cases "split_lines (d # ds)") blast+
      have "l = c # h \<or> l \<in> set t" using 3(4) False F2 ht by auto
      then show ?thesis using 3(3)[OF False F2] ht False by auto
    qed
  qed
qed

lemma unlines_Cons [simp]: "unlines (l # T) = l @ LF # unlines T"
  by (simp add: unlines_def)

lemma unlines_Nil [simp]: "unlines [] = []"
  by (simp add: unlines_def)

lemma unlines_append [simp]: "unlines (A @ B) = unlines A @ unlines B"
  by (simp add: unlines_def)

lemma split_unlines:
  "\<forall>l\<in>set T. LF \<notin> set l \<Longrightarrow> split_lines (unlines T @ rest) = map chomp_cr T @ split_lines rest"
  by (induction T) (simp_all add: split_cons)

lemma join_unlines: "T \<noteq> [] \<Longrightarrow> join [LF] T @ [LF] = unlines T"
  by (induction T rule: induct_list012) simp_all

lemma join_append:
  "xs \<noteq> [] \<Longrightarrow> ys \<noteq> [] \<Longrightarrow> join sep (xs @ ys) = join sep xs @ sep @ join sep ys"
proof (induction xs rule: induct_list012)
  case 1 then show ?case by simp
next
  case (2 x) then show ?case by (cases ys) simp_all
next
  case (3 x y zs) then show ?case by simp
qed

text \<open>A set built from a list holds the elements of the list, each once.\<close>

lemma foldl_set_add_set: "set (foldl (\<lambda>s x. set_add x s) acc xs) = set acc \<union> set xs"
  by (induction xs arbitrary: acc) (auto simp: set_add_def)

lemma foldl_set_add_distinct: "distinct acc \<Longrightarrow> distinct (foldl (\<lambda>s x. set_add x s) acc xs)"
  by (induction xs arbitrary: acc) (auto simp: set_add_def)

lemma set_new_Set [simp]: "set (new_Set xs) = set xs"
  by (simp add: new_Set_def foldl_set_add_set)

lemma distinct_new_Set [simp]: "distinct (new_Set xs)"
  by (simp add: new_Set_def foldl_set_add_distinct)

lemma sort_new_Set_cong: "set xs = set ys \<Longrightarrow> sort (new_Set xs) = sort (new_Set ys)"
  by (rule sorted_distinct_set_unique) simp_all

lemma sort_new_Set_id: "sorted xs \<Longrightarrow> distinct xs \<Longrightarrow> sort (new_Set xs) = xs"
  by (rule sorted_distinct_set_unique) simp_all


section \<open>The flat sort\<close>

lemma good_rule_trim: "is_rule l \<Longrightarrow> LF \<notin> set l \<Longrightarrow> good_rule (trim l)"
  using trim_hd_last[of l] set_trim[of l] by (auto simp: good_rule_def is_rule_def)

lemma good_rule_trim_id: "good_rule r \<Longrightarrow> trim r = r"
  by (simp add: good_rule_def trim_id)

lemma good_rule_is_rule: "good_rule r \<Longrightarrow> is_rule r"
  by (simp add: is_rule_def good_rule_trim_id) (simp add: good_rule_def)

lemma good_rule_chomp: "good_rule r \<Longrightarrow> chomp_cr r = r"
  by (auto simp: good_rule_def chomp_cr_def)

lemma good_rule_lines: "r \<in> set (rule_lines (split_lines x)) \<Longrightarrow> good_rule r"
  using good_rule_trim split_lines_LF_free by (auto simp: rule_lines_def)

lemma rule_lines_good: "\<forall>r\<in>set T. good_rule r \<Longrightarrow> rule_lines T = T"
  by (induction T) (auto simp: rule_lines_def good_rule_is_rule good_rule_trim_id)

lemma rule_lines_append [simp]: "rule_lines (A @ B) = rule_lines A @ rule_lines B"
  by (simp add: rule_lines_def)

lemma not_is_rule_Nil [simp]: "\<not> is_rule []"
  by (simp add: is_rule_def)

lemma rule_lines_Cons_Nil [simp]: "rule_lines ([] # T) = rule_lines T"
  by (simp add: rule_lines_def)

lemma rule_lines_Nil [simp]: "rule_lines [] = []"
  by (simp add: rule_lines_def)

lemma flat_step_rule:
  "flat_step \<lparr>uniqueLines = u, cleanedLines = u\<rparr> l =
     (if is_rule l then \<lparr>uniqueLines = set_add (trim l) u, cleanedLines = set_add (trim l) u\<rparr>
      else \<lparr>uniqueLines = u, cleanedLines = u\<rparr>)"
  by (auto simp: flat_step_def is_rule_def set_add_def Let_def)

lemma flat_fold:
  "foldl flat_step \<lparr>uniqueLines = u, cleanedLines = u\<rparr> ls =
     \<lparr>uniqueLines = foldl (\<lambda>s x. set_add x s) u (rule_lines ls),
      cleanedLines = foldl (\<lambda>s x. set_add x s) u (rule_lines ls)\<rparr>"
proof (induction ls arbitrary: u)
  case Nil
  then show ?case by simp
next
  case (Cons l ls)
  show ?case
    by (cases "is_rule l") (simp_all add: flat_step_rule Cons.IH rule_lines_def)
qed

lemma flat_clean_eq: "flat_clean ls = new_Set (rule_lines ls)"
  by (simp add: flat_clean_def flat_fold new_Set_def)

lemma flat_sorted_good: "r \<in> set (sort (flat_clean (split_lines x))) \<Longrightarrow> good_rule r"
  by (simp add: flat_clean_eq good_rule_lines)

lemma good_rules_LF_free: "\<forall>r\<in>set T. good_rule r \<Longrightarrow> \<forall>r\<in>set T. LF \<notin> set r"
  by (simp add: good_rule_def)

lemma map_chomp_good: "\<forall>r\<in>set T. good_rule r \<Longrightarrow> map chomp_cr T = T"
  by (induction T) (simp_all add: good_rule_chomp)

lemma split_lines_single_LF: "split_lines [LF] = [[], []]"
  by simp

lemma split_organize_flat:
  "split_lines (organize_flat x) =
     (if sort (flat_clean (split_lines x)) = [] then [[], []]
      else sort (flat_clean (split_lines x)) @ [[]])"
proof (cases "sort (flat_clean (split_lines x)) = []")
  case True
  then show ?thesis by (simp add: organize_flat_def)
next
  case False
  let ?T = "sort (flat_clean (split_lines x))"
  have g: "\<forall>r\<in>set ?T. good_rule r" using flat_sorted_good by blast
  have "organize_flat x = unlines ?T @ []"
    using False by (simp add: organize_flat_def join_unlines)
  then have "split_lines (organize_flat x) = map chomp_cr ?T @ split_lines []"
    using split_unlines[OF good_rules_LF_free[OF g]] by metis
  then show ?thesis using False map_chomp_good[OF g] by simp
qed

lemma rule_lines_organize_flat:
  "rule_lines (split_lines (organize_flat x)) = sort (flat_clean (split_lines x))"
proof -
  let ?T = "sort (flat_clean (split_lines x))"
  have g: "\<forall>r\<in>set ?T. good_rule r" using flat_sorted_good by blast
  show ?thesis
  proof (cases "?T = []")
    case True
    then show ?thesis by (simp add: split_organize_flat)
  next
    case False
    then have "split_lines (organize_flat x) = ?T @ [[]]" by (simp add: split_organize_flat)
    then show ?thesis using rule_lines_good[OF g] by simp
  qed
qed

lemma organize_flat_idem: "organize_flat (organize_flat x) = organize_flat x"
proof -
  have "sort (flat_clean (split_lines (organize_flat x))) = sort (flat_clean (split_lines x))"
    unfolding flat_clean_eq[of "split_lines (organize_flat x)"] rule_lines_organize_flat
    by (rule sort_new_Set_id) (simp_all add: flat_clean_eq)
  then show ?thesis by (simp add: organize_flat_def)
qed

lemma flat_no_comment_line:
  assumes "l \<in> set (split_lines (organize_flat x))"
  shows "\<not> startsWithHash l \<and> \<not> startsWithHash (trim l)"
proof -
  have "l = [] \<or> good_rule l"
    using assms flat_sorted_good[of l x] by (auto simp: split_organize_flat split: if_splits)
  then show ?thesis
  proof
    assume "l = []" then show ?thesis by simp
  next
    assume "good_rule l" then show ?thesis by (simp add: good_rule_trim_id) (simp add: good_rule_def)
  qed
qed

lemma flat_no_rules:
  assumes "\<forall>l\<in>set (split_lines x). trim l = [] \<or> startsWithHash (trim l)"
  shows "organize_flat x = [LF]"
proof -
  have "filter is_rule (split_lines x) = []"
    using assms by (auto simp: filter_empty_conv is_rule_def)
  then have "flat_clean (split_lines x) = []"
    by (simp add: flat_clean_eq rule_lines_def new_Set_def)
  then show ?thesis by (simp add: organize_flat_def)
qed


section \<open>The parsing loop\<close>

lemma is_comment_not_blank: "is_comment l \<Longrightarrow> trim l \<noteq> []"
  by (auto simp: is_comment_def)

lemma line_cases: "trim l = [] \<or> is_comment l \<or> is_rule l"
  by (auto simp: is_comment_def is_rule_def)

lemma step_blank:
  "trim l = [] \<Longrightarrow> smart_step (secs, cur) l =
     (if comments cur \<noteq> [] \<or> rules cur \<noteq> [] then (secs @ [cur], empty_section) else (secs, cur))"
  by (simp add: smart_step_def)

lemma step_comment:
  "is_comment l \<Longrightarrow> smart_step (secs, cur) l =
     (if rules cur \<noteq> [] then (secs @ [cur], \<lparr>comments = [l], rules = []\<rparr>)
      else (secs, cur\<lparr>comments := comments cur @ [l]\<rparr>))"
  by (auto simp: smart_step_def is_comment_def empty_section_def Let_def)

lemma step_rule:
  "is_rule l \<Longrightarrow> smart_step (secs, cur) l = (secs, cur\<lparr>rules := rules cur @ [trim l]\<rparr>)"
  by (simp add: smart_step_def is_rule_def Let_def)

lemma smart_loop_snoc: "smart_loop (ls @ [l]) = smart_step (smart_loop ls) l"
  by (simp add: smart_loop_def)

lemma smart_loop_Nil: "smart_loop [] = ([], empty_section)"
  by (simp add: smart_loop_def)

text \<open>What the loop has collected comes from the lines it has read.\<close>

lemma loop_inv_step:
  assumes inv: "loop_inv ls st" and l: "LF \<notin> set l"
  shows "loop_inv (ls @ [l]) (smart_step st l)"
proof -
  obtain secs cur where st: "st = (secs, cur)" by (cases st)
  have cur_good: "comments cur \<noteq> [] \<or> rules cur \<noteq> [] \<Longrightarrow> good_section cur \<and> set (comments cur) \<subseteq> set ls"
    using inv by (auto simp: loop_inv_def st good_section_def)
  consider "trim l = []" | "is_comment l" | "is_rule l" using line_cases by blast
  then show ?thesis
  proof cases
    case 1
    then show ?thesis using inv cur_good
      by (auto simp: st step_blank loop_inv_def empty_section_def)
  next
    case 2
    then show ?thesis using inv cur_good l
      by (auto simp: st step_comment loop_inv_def)
  next
    case 3
    then show ?thesis using inv good_rule_trim[OF 3 l]
      by (auto simp: st step_rule loop_inv_def)
  qed
qed

lemma loop_inv_loop: "\<forall>l\<in>set ls. LF \<notin> set l \<Longrightarrow> loop_inv ls (smart_loop ls)"
proof (induction ls rule: rev_induct)
  case Nil
  then show ?case by (simp add: smart_loop_Nil loop_inv_def empty_section_def)
next
  case (snoc l ls)
  then show ?case by (simp add: smart_loop_snoc loop_inv_step)
qed

lemma parse_sections_good:
  assumes "\<forall>l\<in>set ls. LF \<notin> set l" "sec \<in> set (parse_sections ls)"
  shows "good_section sec" "set (comments sec) \<subseteq> set ls"
proof -
  have inv: "loop_inv ls (smart_loop ls)" using assms(1) by (rule loop_inv_loop)
  obtain secs cur where st: "smart_loop ls = (secs, cur)" by (cases "smart_loop ls")
  have "good_section sec \<and> set (comments sec) \<subseteq> set ls"
    using inv assms(2) unfolding parse_sections_def push_last_def st loop_inv_def good_section_def
    by (auto split: if_splits)
  then show "good_section sec" "set (comments sec) \<subseteq> set ls" by simp_all
qed

text \<open>The rules of the sections, in order, are the trimmed rule lines of the input.\<close>

lemma rules_step:
  "concat (map rules (fst (smart_step st l))) @ rules (snd (smart_step st l)) =
     concat (map rules (fst st)) @ rules (snd st) @ rule_lines [l]"
proof -
  obtain secs cur where st: "st = (secs, cur)" by (cases st)
  consider "trim l = []" | "is_comment l" | "is_rule l" using line_cases by blast
  then show ?thesis
  proof cases
    case 1
    then show ?thesis
      by (auto simp: st step_blank rule_lines_def is_rule_def empty_section_def)
  next
    case 2
    then show ?thesis
      by (auto simp: st step_comment rule_lines_def is_rule_def is_comment_def)
  next
    case 3
    then show ?thesis
      by (auto simp: st step_rule rule_lines_def)
  qed
qed

lemma rules_loop:
  "concat (map rules (fst (smart_loop ls))) @ rules (snd (smart_loop ls)) = rule_lines ls"
proof (induction ls rule: rev_induct)
  case Nil
  then show ?case by (simp add: smart_loop_Nil empty_section_def)
next
  case (snoc l ls)
  then show ?case by (simp add: smart_loop_snoc rules_step)
qed

lemma rules_parse_sections: "concat (map rules (parse_sections ls)) = rule_lines ls"
  using rules_loop[of ls] by (auto simp: parse_sections_def push_last_def)


section \<open>Rendering a section\<close>

lemma trim_trimStart [simp]: "trim (trimStart l) = trim l"
  by (simp add: trim_def trimStart_def)

lemma trim_trimEnd [simp]: "trim (trimEnd l) = trim l"
proof (cases "trim l = []")
  case True
  then have "\<forall>c\<in>set l. ws c" by (simp add: trim_eq_Nil)
  then have "\<forall>c\<in>set (trimEnd l). ws c"
    unfolding trimEnd_def using set_dropWhileD[of _ ws "rev l"] by auto
  then have "trim (trimEnd l) = []" by (simp add: trim_eq_Nil)
  with True show ?thesis by simp
next
  case False
  obtain w1 w2 where d: "l = w1 @ trim l @ w2" "\<forall>c\<in>set w1. ws c" "\<forall>c\<in>set w2. ws c"
    "\<not> ws (hd (trim l))" "\<not> ws (last (trim l))" using solid_decomp[OF False] by blast
  have "trimEnd (w1 @ trim l @ w2) = w1 @ trim l"
    by (rule trim_decomp(2)) (use d False in auto)
  then have e: "trimEnd l = w1 @ trim l @ []" using d(1) by simp
  have "trim (w1 @ trim l @ []) = trim l"
    by (rule trim_decomp(3)) (use d False in auto)
  with e show ?thesis by simp
qed

lemma trimStart_join:
  "L \<noteq> [] \<Longrightarrow> trim (hd L) \<noteq> [] \<Longrightarrow> trimStart (join sep L) = join sep (map_hd trimStart L)"
proof (induction L rule: induct_list012)
  case 1 then show ?case by simp
next
  case (2 x) then show ?case by simp
next
  case (3 x y zs) then show ?case by (simp add: trimStart_append)
qed

lemma join_snoc: "B \<noteq> [] \<Longrightarrow> join sep (B @ [l]) = join sep B @ sep @ l"
  by (simp add: join_append)

lemma trimEnd_join:
  "L \<noteq> [] \<Longrightarrow> trim (last L) \<noteq> [] \<Longrightarrow> trimEnd (join sep L) = join sep (map_last trimEnd L)"
proof (cases L rule: rev_cases)
  case Nil
  assume "L \<noteq> []" with Nil show ?thesis by simp
next
  case (snoc B l)
  assume "trim (last L) \<noteq> []"
  then have s: "trim l \<noteq> []" using snoc by simp
  show ?thesis
  proof (cases "B = []")
    case True
    then show ?thesis using snoc by (simp add: map_last_def)
  next
    case False
    have "trimEnd ((join sep B @ sep) @ l) = (join sep B @ sep) @ trimEnd l"
      using s by (rule trimEnd_append)
    then show ?thesis using snoc False by (simp add: map_last_def join_snoc)
  qed
qed

text \<open>The header followed by the body is the join of all lines, with one more line feed when there is no rule.\<close>

lemma header_body:
  "(if C \<noteq> [] then join [LF] C @ [LF] else []) @ join [LF] U =
     join [LF] (C @ U) @ (if C \<noteq> [] \<and> U = [] then [LF] else [])"
  by (cases "C = []"; cases "U = []") (simp_all add: join_append)

lemma join_eq_Nil: "L \<noteq> [] \<Longrightarrow> hd L \<noteq> [] \<Longrightarrow> join sep L \<noteq> []"
  by (induction L rule: induct_list012) simp_all

lemma map_hd_append: "xs \<noteq> [] \<Longrightarrow> map_hd f (xs @ ys) = map_hd f xs @ ys"
  by (cases xs) simp_all

lemma map_last_append: "ys \<noteq> [] \<Longrightarrow> map_last f (xs @ ys) = xs @ map_last f ys"
  by (simp add: map_last_def butlast_append)

lemma map_hd_id: "xs \<noteq> [] \<Longrightarrow> f (hd xs) = hd xs \<Longrightarrow> map_hd f xs = xs"
  by (cases xs) simp_all

lemma map_last_id: "xs \<noteq> [] \<Longrightarrow> f (last xs) = last xs \<Longrightarrow> map_last f xs = xs"
  by (simp add: map_last_def)

lemma map_hd_Nil_iff [simp]: "map_hd f xs = [] \<longleftrightarrow> xs = []"
  by (cases xs) simp_all

lemma map_last_Nil_iff [simp]: "map_last f xs = [] \<longleftrightarrow> xs = []"
  by (simp add: map_last_def)

lemma set_map_hd: "set (map_hd f xs) \<subseteq> set xs \<union> f ` set xs"
  by (cases xs) auto

lemma set_map_last: "set (map_last f xs) \<subseteq> set xs \<union> f ` set xs"
proof (cases xs rule: rev_cases)
  case Nil then show ?thesis by (simp add: map_last_def)
next
  case (snoc ys y) then show ?thesis by (auto simp: map_last_def)
qed

lemma hd_map_hd: "xs \<noteq> [] \<Longrightarrow> hd (map_hd f xs) = f (hd xs)"
  by (cases xs) simp_all

lemma last_map_hd: "last (map_hd f xs) = (if length xs = 1 then f (last xs) else last xs)"
  by (cases xs) auto

lemma trim_last_map_hd: "trim (last (map_hd trimStart L)) = trim (last L)"
  by (cases L) auto

lemma set_uniqueRules: "set (uniqueRules sec) = set (rules sec)"
  by (simp add: uniqueRules_def)

lemma sorted_uniqueRules [simp]: "sorted (uniqueRules sec)"
  by (simp add: uniqueRules_def)

lemma distinct_uniqueRules [simp]: "distinct (uniqueRules sec)"
  by (simp add: uniqueRules_def)

lemma uniqueRules_Nil_iff: "uniqueRules sec = [] \<longleftrightarrow> rules sec = []"
  using set_uniqueRules[of sec] by (metis set_empty)

lemma good_rule_solid: "good_rule r \<Longrightarrow> trim r \<noteq> []"
  by (simp add: good_rule_trim_id) (simp add: good_rule_def)

lemma good_rule_trimStart: "good_rule r \<Longrightarrow> trimStart r = r"
  by (simp add: good_rule_def trimStart_id)

lemma good_rule_trimEnd: "good_rule r \<Longrightarrow> trimEnd r = r"
  by (simp add: good_rule_def trimEnd_id)

lemma render_trim:
  assumes g: "good_section sec"
  shows "render sec = trim (join [LF] (comments sec @ uniqueRules sec))"
proof -
  let ?C = "comments sec" and ?U = "uniqueRules sec"
  have U: "\<forall>r\<in>set ?U. good_rule r" using g by (simp add: good_section_def set_uniqueRules)
  have ne: "?C \<noteq> [] \<or> join [LF] ?U \<noteq> []"
  proof (cases "?C = []")
    case True
    then have n: "?U \<noteq> []" using g by (simp add: good_section_def uniqueRules_Nil_iff)
    then have "hd ?U \<in> set ?U" by (rule hd_in_set)
    then have "hd ?U \<noteq> []" using U by (auto simp: good_rule_def)
    then show ?thesis using n join_eq_Nil by blast
  qed simp
  have "render sec = trim ((if ?C \<noteq> [] then join [LF] ?C @ [LF] else []) @ join [LF] ?U)"
    using ne by (auto simp: render_def Let_def)
  also have "\<dots> = trim (join [LF] (?C @ ?U) @ (if ?C \<noteq> [] \<and> ?U = [] then [LF] else []))"
    by (simp only: header_body)
  also have "\<dots> = trim (join [LF] (?C @ ?U))"
    by (rule trim_append_ws) simp
  finally show ?thesis .
qed

lemma render_lines:
  assumes g: "good_section sec"
  shows "render sec = join [LF] (out_lines sec)"
proof -
  let ?C = "comments sec" and ?U = "uniqueRules sec"
  let ?L = "?C @ ?U"
  have U: "\<forall>r\<in>set ?U. good_rule r" using g by (simp add: good_section_def set_uniqueRules)
  have C: "\<forall>c\<in>set ?C. trim c \<noteq> []"
    using g by (auto simp: good_section_def dest: is_comment_not_blank)
  have solid: "\<forall>l\<in>set ?L. trim l \<noteq> []" using U C good_rule_solid by auto
  have L: "?L \<noteq> []" using g by (simp add: good_section_def uniqueRules_Nil_iff)
  then have "hd ?L \<in> set ?L" by (rule hd_in_set)
  then have hdL: "trim (hd ?L) \<noteq> []" using solid by blast
  have "last ?L \<in> set ?L" using L by (rule last_in_set)
  then have lastL: "trim (last ?L) \<noteq> []" using solid by blast
  let ?D = "map_hd trimStart ?L"
  have D: "?D \<noteq> []" using L by simp
  have "trim (last ?D) \<noteq> []"
    using lastL by (simp add: trim_last_map_hd)
  then have e: "trimEnd (join [LF] ?D) = join [LF] (map_last trimEnd ?D)"
    using D trimEnd_join by blast
  have "render sec = trimEnd (trimStart (join [LF] ?L))"
    using render_trim[OF g] by (simp add: trim_def)
  also have "\<dots> = join [LF] (map_last trimEnd ?D)"
    using trimStart_join[OF L hdL] e by simp
  also have "map_last trimEnd ?D = out_lines sec"
  proof (cases "?U = []")
    case True
    then have r: "rules sec = []" by (simp only: uniqueRules_Nil_iff)
    show ?thesis unfolding out_lines_def out_comments_def True r by simp
  next
    case False
    have "hd ?U \<in> set ?U" using False by (rule hd_in_set)
    then have hdU: "trimStart (hd ?U) = hd ?U" using U good_rule_trimStart by blast
    have "last ?U \<in> set ?U" using False by (rule last_in_set)
    then have lastU: "trimEnd (last ?U) = last ?U" using U good_rule_trimEnd by blast
    have "?D = map_hd trimStart ?C @ ?U"
    proof (cases "?C = []")
      case True
      then show ?thesis using map_hd_id[of ?U trimStart, OF False hdU] by simp
    next
      case False
      then show ?thesis by (simp add: map_hd_append)
    qed
    then have "map_last trimEnd ?D = map_hd trimStart ?C @ map_last trimEnd ?U"
      using False by (simp add: map_last_append)
    also have "map_last trimEnd ?U = ?U" using map_last_id[of ?U trimEnd, OF False lastU] .
    finally show ?thesis using False unfolding uniqueRules_Nil_iff
      by (simp add: out_lines_def out_comments_def)
  qed
  finally show ?thesis .
qed


section \<open>The lines of the output\<close>

lemma set_trimStart: "set (trimStart c) \<subseteq> set c"
  unfolding trimStart_def by (auto dest: set_dropWhileD)

lemma set_trimEnd: "set (trimEnd c) \<subseteq> set c"
proof
  fix x assume "x \<in> set (trimEnd c)"
  then have "x \<in> set (dropWhile ws (rev c))" by (simp add: trimEnd_def)
  then have "x \<in> set (rev c)" by (rule set_dropWhileD)
  then show "x \<in> set c" by simp
qed

lemma set_chomp_cr: "set (chomp_cr c) \<subseteq> set c"
  by (auto simp: chomp_cr_def dest: in_set_butlastD)

lemma trim_chomp_cr [simp]: "trim (chomp_cr c) = trim c"
proof (cases "c \<noteq> [] \<and> last c = CR")
  case True
  then have c: "c = butlast c @ [CR]" by (metis append_butlast_last_id)
  have "trim (butlast c @ [CR]) = trim (butlast c)" by (rule trim_append_ws) simp
  then show ?thesis using True c by (simp add: chomp_cr_def)
next
  case False
  then show ?thesis by (auto simp: chomp_cr_def)
qed

lemma good_comment_trimStart: "good_comment c \<Longrightarrow> good_comment (trimStart c)"
  using set_trimStart[of c] by (auto simp: good_comment_def is_comment_def)

lemma good_comment_trimEnd: "good_comment c \<Longrightarrow> good_comment (trimEnd c)"
  using set_trimEnd[of c] by (auto simp: good_comment_def is_comment_def)

lemma good_comment_chomp: "good_comment c \<Longrightarrow> good_comment (chomp_cr c)"
  using set_chomp_cr[of c] by (auto simp: good_comment_def is_comment_def)

lemma map_hd_pres: "\<forall>x\<in>set xs. P x \<Longrightarrow> (\<And>x. P x \<Longrightarrow> P (f x)) \<Longrightarrow> \<forall>x\<in>set (map_hd f xs). P x"
  using set_map_hd[of f xs] by auto

lemma map_last_pres: "\<forall>x\<in>set xs. P x \<Longrightarrow> (\<And>x. P x \<Longrightarrow> P (f x)) \<Longrightarrow> \<forall>x\<in>set (map_last f xs). P x"
  using set_map_last[of f xs] by auto

lemma out_comments_good:
  assumes "good_section sec"
  shows "\<forall>c\<in>set (out_comments sec). good_comment c"
proof -
  have c: "\<forall>c\<in>set (comments sec). good_comment c"
    using assms by (simp add: good_section_def good_comment_def)
  have s: "\<forall>c\<in>set (map_hd trimStart (comments sec)). good_comment c"
    using c good_comment_trimStart by (rule map_hd_pres)
  have "\<forall>c\<in>set (map_last trimEnd (map_hd trimStart (comments sec))). good_comment c"
    using s good_comment_trimEnd by (rule map_last_pres)
  with s show ?thesis by (simp add: out_comments_def)
qed

lemma out_comments_Nil_iff: "out_comments sec = [] \<longleftrightarrow> comments sec = []"
  by (simp add: out_comments_def)

lemma good_comment_nonempty: "good_comment c \<Longrightarrow> c \<noteq> []"
  by (auto simp: good_comment_def is_comment_def)

lemma out_lines_props:
  assumes g: "good_section sec"
  shows "out_lines sec \<noteq> []" "\<forall>l\<in>set (out_lines sec). LF \<notin> set l \<and> l \<noteq> []"
proof -
  show "out_lines sec \<noteq> []"
    using g by (simp add: out_lines_def good_section_def out_comments_Nil_iff uniqueRules_Nil_iff)
  have "\<forall>r\<in>set (uniqueRules sec). good_rule r"
    using g by (simp add: good_section_def set_uniqueRules)
  then show "\<forall>l\<in>set (out_lines sec). LF \<notin> set l \<and> l \<noteq> []"
    using out_comments_good[OF g] good_comment_nonempty
    by (auto simp: out_lines_def good_rule_def good_comment_def)
qed

lemma render_nonempty: "good_section sec \<Longrightarrow> render sec \<noteq> []"
proof -
  assume g: "good_section sec"
  have "hd (out_lines sec) \<in> set (out_lines sec)" using out_lines_props(1)[OF g] by (rule hd_in_set)
  then have "hd (out_lines sec) \<noteq> []" using out_lines_props(2)[OF g] by blast
  then show ?thesis using render_lines[OF g] out_lines_props(1)[OF g] join_eq_Nil by simp
qed

lemma render_unlines: "good_section sec \<Longrightarrow> render sec @ [LF] = unlines (out_lines sec)"
  by (simp add: render_lines join_unlines out_lines_props(1))

lemma filter_render:
  "\<forall>sec\<in>set secs. good_section sec \<Longrightarrow> filter (\<lambda>s. s \<noteq> []) (map render secs) = map render secs"
  by (induction secs) (simp_all add: render_nonempty)

lemma render_all_unlines:
  "\<forall>sec\<in>set secs. good_section sec \<Longrightarrow> render_all secs = unlines (all_lines secs)"
proof (induction secs rule: induct_list012)
  case 1
  then show ?case by (simp add: render_all_def)
next
  case (2 s)
  then show ?case by (simp add: render_all_def render_nonempty render_unlines)
next
  case (3 s s' ss)
  then have ih: "render_all (s' # ss) = unlines (all_lines (s' # ss))" by simp
  have f: "filter (\<lambda>s. s \<noteq> []) (map render (s # s' # ss)) = map render (s # s' # ss)"
    using 3(3) by (rule filter_render)
  have f': "filter (\<lambda>s. s \<noteq> []) (map render (s' # ss)) = map render (s' # ss)"
    using 3(3) by (intro filter_render) simp
  have "render_all (s # s' # ss) = (render s @ [LF]) @ LF # render_all (s' # ss)"
    unfolding render_all_def f f' by simp
  also have "\<dots> = unlines (out_lines s) @ LF # unlines (all_lines (s' # ss))"
    using 3(3) ih by (simp only: render_unlines list.set_intros)
  finally show ?case by simp
qed

lemma all_lines_LF_free:
  "\<forall>sec\<in>set secs. good_section sec \<Longrightarrow> \<forall>l\<in>set (all_lines secs). LF \<notin> set l"
  by (induction secs rule: induct_list012) (auto dest: out_lines_props(2))

lemma split_render_all:
  assumes "\<forall>sec\<in>set secs. good_section sec"
  shows "split_lines (render_all secs) = map chomp_cr (all_lines secs) @ [[]]"
proof -
  have "split_lines (unlines (all_lines secs) @ []) = map chomp_cr (all_lines secs) @ split_lines []"
    using all_lines_LF_free[OF assms] by (rule split_unlines)
  then show ?thesis using render_all_unlines[OF assms] by simp
qed


section \<open>Reading the output back\<close>

lemma fold_comments:
  "\<forall>c\<in>set C. is_comment c \<Longrightarrow>
     foldl smart_step (secs, \<lparr>comments = A, rules = []\<rparr>) C = (secs, \<lparr>comments = A @ C, rules = []\<rparr>)"
  by (induction C arbitrary: A) (simp_all add: step_comment)

lemma fold_rules:
  "\<forall>r\<in>set R. good_rule r \<Longrightarrow>
     foldl smart_step (secs, \<lparr>comments = A, rules = B\<rparr>) R = (secs, \<lparr>comments = A, rules = B @ R\<rparr>)"
  by (induction R arbitrary: B) (simp_all add: step_rule good_rule_is_rule good_rule_trim_id)

lemma read_lines:
  assumes g: "good_section sec"
  shows "map chomp_cr (out_lines sec) = comments (read_section sec) @ rules (read_section sec)"
proof -
  have "\<forall>r\<in>set (uniqueRules sec). good_rule r"
    using g by (simp add: good_section_def set_uniqueRules)
  then have "map chomp_cr (uniqueRules sec) = uniqueRules sec" by (rule map_chomp_good)
  then show ?thesis by (simp add: out_lines_def read_section_def)
qed

lemma read_section_good:
  assumes g: "good_section sec"
  shows "good_section (read_section sec)"
proof -
  have "\<forall>c\<in>set (map chomp_cr (out_comments sec)). good_comment c"
    using out_comments_good[OF g] good_comment_chomp by simp
  then show ?thesis
    using g by (auto simp: good_section_def read_section_def good_comment_def set_uniqueRules
        out_comments_Nil_iff uniqueRules_Nil_iff)
qed

lemma feed_section:
  assumes g: "good_section sec"
  shows "foldl smart_step (secs, empty_section) (map chomp_cr (out_lines sec) @ [[]]) =
           (secs @ [read_section sec], empty_section)"
proof -
  let ?r = "read_section sec"
  have gr: "good_section ?r" using g by (rule read_section_good)
  have c: "\<forall>c\<in>set (comments ?r). is_comment c" using gr by (simp add: good_section_def)
  have r: "\<forall>r\<in>set (rules ?r). good_rule r" using gr by (simp add: good_section_def)
  have ne: "comments ?r \<noteq> [] \<or> rules ?r \<noteq> []" using gr by (simp add: good_section_def)
  have 1: "foldl smart_step (secs, empty_section) (comments ?r) =
             (secs, \<lparr>comments = comments ?r, rules = []\<rparr>)"
    using fold_comments[OF c, of secs "[]"] by (simp add: empty_section_def)
  have 2: "foldl smart_step (secs, \<lparr>comments = comments ?r, rules = []\<rparr>) (rules ?r) = (secs, ?r)"
    using fold_rules[OF r, of secs "comments ?r" "[]"] by simp
  have 3: "smart_step (secs, ?r) [] = (secs @ [?r], empty_section)"
    using ne by (simp add: step_blank)
  show ?thesis unfolding read_lines[OF g] by (simp add: 1 2 3)
qed

lemma step_blank_empty: "smart_step (secs, empty_section) [] = (secs, empty_section)"
  by (simp add: step_blank empty_section_def)

lemma parse_all_lines:
  "\<forall>sec\<in>set secs. good_section sec \<Longrightarrow>
     foldl smart_step (secs0, empty_section) (map chomp_cr (all_lines secs) @ [[]]) =
       (secs0 @ map read_section secs, empty_section)"
proof (induction secs arbitrary: secs0 rule: induct_list012)
  case 1
  then show ?case by (simp add: step_blank_empty)
next
  case (2 s)
  then have "good_section s" by simp
  then show ?case unfolding all_lines.simps list.map by (rule feed_section)
next
  case (3 s s' ss)
  have g: "good_section s" using 3(3) by simp
  have g': "\<forall>sec\<in>set (s' # ss). good_section sec" using 3(3) by simp
  have e: "map chomp_cr (all_lines (s # s' # ss)) @ [[]] =
          (map chomp_cr (out_lines s) @ [[]]) @ (map chomp_cr (all_lines (s' # ss)) @ [[]])"
    by simp
  have "foldl smart_step (secs0, empty_section) (map chomp_cr (all_lines (s # s' # ss)) @ [[]]) =
      foldl smart_step (foldl smart_step (secs0, empty_section) (map chomp_cr (out_lines s) @ [[]]))
        (map chomp_cr (all_lines (s' # ss)) @ [[]])"
    unfolding e by (rule foldl_append)
  also have "\<dots> = foldl smart_step (secs0 @ [read_section s], empty_section)
        (map chomp_cr (all_lines (s' # ss)) @ [[]])"
    by (simp only: feed_section[OF g])
  also have "\<dots> = ((secs0 @ [read_section s]) @ map read_section (s' # ss), empty_section)"
    using g' by (rule 3(2))
  finally show ?case by simp
qed

lemma parse_render_all:
  assumes "\<forall>sec\<in>set secs. good_section sec"
  shows "parse_sections (split_lines (render_all secs)) = map read_section secs"
  using parse_all_lines[OF assms, of "[]"]
  by (simp add: parse_sections_def push_last_def smart_loop_def split_render_all[OF assms]
      empty_section_def)

lemma parsed_good: "\<forall>sec\<in>set (parse_sections (split_lines x)). good_section sec"
  using parse_sections_good(1)[of "split_lines x"] split_lines_LF_free by blast

lemma parse_organize_smart:
  "parse_sections (split_lines (organize_smart x)) = map read_section (parse_sections (split_lines x))"
  unfolding organize_smart_def by (rule parse_render_all) (rule parsed_good)


section \<open>Organizing the output again\<close>

lemma chomp_cr_id: "\<not> ends_with_CR l \<Longrightarrow> chomp_cr l = l"
  by (auto simp: chomp_cr_def ends_with_CR_def)

lemma ends_with_CR_trimStart:
  assumes "trim c \<noteq> []"
  shows "ends_with_CR (trimStart c) = ends_with_CR c"
proof -
  have "\<not> (\<forall>x\<in>set c. ws x)" using assms by (simp add: trim_eq_Nil)
  then have d: "dropWhile ws c \<noteq> []" by (simp add: dropWhile_eq_Nil_conv)
  have "c = takeWhile ws c @ dropWhile ws c" by simp
  then have "last c = last (takeWhile ws c @ dropWhile ws c)" by simp
  also have "\<dots> = last (dropWhile ws c)" using d by (rule last_appendR)
  finally have "last c = last (trimStart c)" by (simp add: trimStart_def)
  moreover have "c \<noteq> []" using d by auto
  moreover have "trimStart c \<noteq> []" using d by (simp add: trimStart_def)
  ultimately show ?thesis by (simp add: ends_with_CR_def)
qed

lemma not_ends_with_CR_trimEnd: "\<not> ends_with_CR (trimEnd c)"
proof
  assume a: "ends_with_CR (trimEnd c)"
  then have n: "dropWhile ws (rev c) \<noteq> []" by (auto simp: ends_with_CR_def trimEnd_def)
  then have "\<not> ws (hd (dropWhile ws (rev c)))" by (rule hd_dropWhile)
  moreover have "last (trimEnd c) = hd (dropWhile ws (rev c))"
    using n by (simp add: trimEnd_def last_rev)
  ultimately show False using a by (simp add: ends_with_CR_def)
qed

lemma out_comments_no_CR:
  assumes g: "good_section sec" and n: "\<forall>c\<in>set (comments sec). \<not> ends_with_CR c"
  shows "\<forall>c\<in>set (out_comments sec). \<not> ends_with_CR c"
proof -
  let ?P = "\<lambda>c. trim c \<noteq> [] \<and> \<not> ends_with_CR c"
  have c: "\<forall>c\<in>set (comments sec). ?P c"
    using g n by (auto simp: good_section_def dest: is_comment_not_blank)
  have s: "\<forall>c\<in>set (map_hd trimStart (comments sec)). ?P c"
    using c by (rule map_hd_pres) (simp add: ends_with_CR_trimStart)
  have "\<forall>c\<in>set (map_last trimEnd (map_hd trimStart (comments sec))). ?P c"
    using s by (rule map_last_pres) (simp add: not_ends_with_CR_trimEnd)
  with s show ?thesis by (simp add: out_comments_def)
qed

lemma render_idem: "good_section sec \<Longrightarrow> trim (render sec) = render sec"
  by (simp add: render_trim)

lemma render_read_section:
  assumes g: "good_section sec" and n: "\<forall>c\<in>set (comments sec). \<not> ends_with_CR c"
  shows "render (read_section sec) = render sec"
proof -
  have "map chomp_cr (out_comments sec) = out_comments sec"
    using out_comments_no_CR[OF g n] by (simp add: chomp_cr_id map_idI)
  then have r: "read_section sec = \<lparr>comments = out_comments sec, rules = uniqueRules sec\<rparr>"
    by (simp add: read_section_def)
  have u: "uniqueRules (read_section sec) = uniqueRules sec"
    unfolding r by (simp add: uniqueRules_def sort_new_Set_id)
  have "render (read_section sec) =
      trim (join [LF] (comments (read_section sec) @ uniqueRules (read_section sec)))"
    using read_section_good[OF g] by (rule render_trim)
  also have "\<dots> = trim (join [LF] (out_lines sec))"
    unfolding u by (simp add: r out_lines_def)
  also have "\<dots> = render sec"
    using g by (simp add: render_lines[symmetric] render_idem)
  finally show ?thesis .
qed

lemma organize_smart_idem:
  assumes "\<forall>l\<in>set (split_lines x). is_comment l \<longrightarrow> \<not> ends_with_CR l"
  shows "organize_smart (organize_smart x) = organize_smart x"
proof -
  let ?secs = "parse_sections (split_lines x)"
  have lf: "\<forall>l\<in>set (split_lines x). LF \<notin> set l" using split_lines_LF_free by blast
  have r: "render (read_section sec) = render sec" if sec: "sec \<in> set ?secs" for sec
  proof (rule render_read_section)
    show "good_section sec" using parse_sections_good(1)[OF lf sec] .
    have "set (comments sec) \<subseteq> set (split_lines x)" using parse_sections_good(2)[OF lf sec] .
    moreover have "\<forall>c\<in>set (comments sec). is_comment c"
      using parse_sections_good(1)[OF lf sec] by (simp add: good_section_def)
    ultimately show "\<forall>c\<in>set (comments sec). \<not> ends_with_CR c" using assms by blast
  qed
  have "organize_smart (organize_smart x) = render_all (map read_section ?secs)"
    by (simp add: organize_smart_def[of "organize_smart x"] parse_organize_smart)
  also have "\<dots> = render_all ?secs"
    using r by (simp add: render_all_def comp_def cong: map_cong)
  finally show ?thesis by (simp add: organize_smart_def)
qed

lemma set_rules_read: "set (rules (read_section sec)) = set (rules sec)"
  by (simp add: read_section_def set_uniqueRules)

lemma smart_rule_set:
  "set (rule_lines (split_lines (organize_smart x))) = set (rule_lines (split_lines x))"
proof -
  let ?secs = "parse_sections (split_lines x)"
  have "rule_lines (split_lines (organize_smart x)) = concat (map rules (map read_section ?secs))"
    by (simp only: rules_parse_sections[symmetric] parse_organize_smart)
  then have "set (rule_lines (split_lines (organize_smart x))) = (\<Union>sec\<in>set ?secs. set (rules sec))"
    by (simp add: set_rules_read)
  also have "\<dots> = set (concat (map rules ?secs))" by simp
  also have "\<dots> = set (rule_lines (split_lines x))" by (simp only: rules_parse_sections)
  finally show ?thesis .
qed

lemma flat_of_smart: "organize_flat (organize_smart x) = organize_flat x"
proof -
  have "sort (new_Set (rule_lines (split_lines (organize_smart x)))) =
      sort (new_Set (rule_lines (split_lines x)))"
    using smart_rule_set by (rule sort_new_Set_cong)
  then show ?thesis by (simp add: organize_flat_def flat_clean_eq)
qed

lemma smart_sections_rules:
  assumes "sec \<in> set (parse_sections (split_lines (organize_smart x)))"
  shows "sorted (rules sec)" "distinct (rules sec)"
proof -
  obtain s where "sec = read_section s" using assms unfolding parse_organize_smart by auto
  then show "sorted (rules sec)" "distinct (rules sec)" by (simp_all add: read_section_def)
qed


section \<open>Code units and code points\<close>

lemma code_points_bmp: "\<forall>c\<in>set s. \<not> is_surrogate c \<Longrightarrow> code_points s = map uint s"
proof (induction s rule: code_points.induct)
  case 1 then show ?case by simp
next
  case (2 c) then show ?case by simp
next
  case (3 c d cs)
  have n: "\<not> (0xD800 \<le> c \<and> c \<le> 0xDBFF \<and> 0xDC00 \<le> d \<and> d \<le> 0xDFFF)"
  proof
    assume a: "0xD800 \<le> c \<and> c \<le> 0xDBFF \<and> 0xDC00 \<le> d \<and> d \<le> 0xDFFF"
    have "(0xDBFF :: cu) \<le> 0xDFFF" by simp
    with a have "c \<le> 0xDFFF" by (meson order_trans)
    with a 3(3) show False by (simp add: is_surrogate_def)
  qed
  have "code_points (d # cs) = map uint (d # cs)"
    using 3(2)[OF n] 3(3) by simp
  moreover have "code_points (c # d # cs) = uint c # code_points (d # cs)"
    by (simp only: code_points.simps n if_False)
  ultimately show ?case by simp
qed

lemma map_uint_le: "(a :: jsstring) \<le> b \<Longrightarrow> map uint a \<le> map uint b"
proof (induction a arbitrary: b)
  case Nil then show ?case by simp
next
  case (Cons x a)
  then show ?case by (cases b) (auto simp: word_less_def)
qed

lemma sorted_code_points:
  assumes "sorted (rs :: jsstring list)" "\<forall>r\<in>set rs. \<forall>c\<in>set r. \<not> is_surrogate c"
  shows "sorted (map code_points rs)"
proof -
  have e: "map code_points rs = map (map uint) rs"
    by (intro map_cong refl code_points_bmp) (use assms(2) in blast)
  have "sorted (map (map uint) rs)"
    using assms(1) by (induction rs) (auto simp: map_uint_le)
  then show ?thesis unfolding e .
qed

lemma set_consFirst: "ls \<noteq> [] \<Longrightarrow> \<Union> (set ` set (consFirst c ls)) = insert c (\<Union> (set ` set ls))"
  by (cases ls) auto

lemma split_lines_subset: "\<Union> (set ` set (split_lines s)) \<subseteq> set s"
proof (induction s rule: split_lines.induct)
  case 1 then show ?case by simp
next
  case (2 c) then show ?case by simp
next
  case (3 c d ds)
  show ?case
  proof (cases "c = LF")
    case True with 3 show ?thesis by auto
  next
    case False
    show ?thesis
    proof (cases "c = CR \<and> d = LF")
      case True with 3 False show ?thesis by auto
    next
      case F2: False
      have "split_lines (c # d # ds) = consFirst c (split_lines (d # ds))"
        by (simp only: split_lines.simps False F2 if_False)
      then have "\<Union> (set ` set (split_lines (c # d # ds))) = insert c (\<Union> (set ` set (split_lines (d # ds))))"
        using set_consFirst[OF split_lines_not_Nil, of c "d # ds"] by (simp only:)
      then show ?thesis using 3(3)[OF False F2] by auto
    qed
  qed
qed

lemma rule_lines_chars:
  assumes "r \<in> set (rule_lines (split_lines x))" "c \<in> set r"
  shows "c \<in> set x"
proof -
  obtain l where l: "l \<in> set (split_lines x)" "r = trim l"
    using assms(1) by (auto simp: rule_lines_def)
  then have "c \<in> set l" using assms(2) set_trim by blast
  then show ?thesis using l(1) split_lines_subset[of x] by blast
qed

lemma smart_rules_from_input:
  assumes "sec \<in> set (parse_sections (split_lines (organize_smart x)))"
  shows "set (rules sec) \<subseteq> set (rule_lines (split_lines x))"
proof -
  obtain s where s: "s \<in> set (parse_sections (split_lines x))" "sec = read_section s"
    using assms unfolding parse_organize_smart by auto
  have "set (rules s) \<subseteq> set (concat (map rules (parse_sections (split_lines x))))"
    using s(1) by auto
  then show ?thesis unfolding rules_parse_sections s(2) set_rules_read .
qed

lemma flat_rules_from_input:
  "set (rule_lines (split_lines (organize_flat x))) = set (rule_lines (split_lines x))"
  by (simp add: rule_lines_organize_flat flat_clean_eq)


section \<open>Mixed line endings\<close>

lemma chomp_cr_snoc_CR [simp]: "chomp_cr (l @ [CR]) = l"
  by (simp add: chomp_cr_def)

lemma split_join_mixed:
  "ls \<noteq> [] \<Longrightarrow> \<forall>l\<in>set ls. LF \<notin> set l \<Longrightarrow>
     list_all2 same_line ls (split_lines (join_mixed ls seps))"
proof (induction ls seps rule: join_mixed.induct)
  case (1 seps)
  then show ?case by simp
next
  case (2 l seps)
  then show ?case by (simp add: split_no_LF same_line_def)
next
  case (3 l l' ls seps)
  have ih: "list_all2 same_line (l' # ls) (split_lines (join_mixed (l' # ls) (tl seps)))"
    using 3 by simp
  have l: "LF \<notin> set l" using 3(3) by simp
  show ?case
  proof (cases "seps \<noteq> [] \<and> hd seps")
    case True
    have "LF \<notin> set (l @ [CR])" using l by simp
    then have "split_lines ((l @ [CR]) @ LF # join_mixed (l' # ls) (tl seps)) =
        chomp_cr (l @ [CR]) # split_lines (join_mixed (l' # ls) (tl seps))"
      by (rule split_cons)
    then have "split_lines (join_mixed (l # l' # ls) seps) =
        l # split_lines (join_mixed (l' # ls) (tl seps))"
      using True by simp
    moreover have "same_line l l" by (simp add: same_line_def)
    ultimately show ?thesis using ih by simp
  next
    case False
    have "split_lines (l @ LF # join_mixed (l' # ls) (tl seps)) =
        chomp_cr l # split_lines (join_mixed (l' # ls) (tl seps))"
      using l by (rule split_cons)
    then have "split_lines (join_mixed (l # l' # ls) seps) =
        chomp_cr l # split_lines (join_mixed (l' # ls) (tl seps))"
      using False by auto
    moreover have "same_line l (chomp_cr l)" by (simp add: same_line_def)
    ultimately show ?thesis using ih by simp
  qed
qed

lemma same_line_trim: "same_line l l' \<Longrightarrow> trim l' = trim l"
  by (auto simp: same_line_def)

lemma same_line_rule_lines: "list_all2 same_line ls ls' \<Longrightarrow> rule_lines ls' = rule_lines ls"
  by (induction rule: list_all2_induct) (auto simp: rule_lines_def is_rule_def same_line_trim)

lemma organize_flat_lines:
  "organize_flat x = join [LF] (sort (new_Set (rule_lines (split_lines x)))) @ [LF]"
  by (simp add: organize_flat_def flat_clean_eq)

lemma flat_join_mixed:
  assumes "\<forall>l\<in>set ls. LF \<notin> set l"
  shows "organize_flat (join_mixed ls seps) = organize_flat (join_mixed ls seps')"
proof (cases "ls = []")
  case True
  then show ?thesis by simp
next
  case False
  have "rule_lines (split_lines (join_mixed ls seps)) = rule_lines ls"
    using split_join_mixed[OF False assms] by (rule same_line_rule_lines)
  moreover have "rule_lines (split_lines (join_mixed ls seps')) = rule_lines ls"
    using split_join_mixed[OF False assms] by (rule same_line_rule_lines)
  ultimately show ?thesis by (simp only: organize_flat_lines)
qed

lemma smart_step_cong:
  assumes "trim l' = trim l" "is_comment l \<longrightarrow> l' = l"
  shows "smart_step st l' = smart_step st l"
proof (cases "is_comment l")
  case True
  then show ?thesis using assms(2) by simp
next
  case False
  then have "\<not> startsWithHash (trim l)" by (simp add: is_comment_def)
  then show ?thesis using assms(1) by (simp add: smart_step_def Let_def)
qed

lemma smart_fold_cong:
  "list_all2 (\<lambda>l l'. trim l' = trim l \<and> (is_comment l \<longrightarrow> l' = l)) ls ls' \<Longrightarrow>
     foldl smart_step st ls' = foldl smart_step st ls"
proof (induction arbitrary: st rule: list_all2_induct)
  case Nil
  then show ?case by simp
next
  case (Cons l ls l' ls')
  then show ?case by (simp add: smart_step_cong[of l' l])
qed

lemma parse_join_mixed:
  assumes ne: "ls \<noteq> []" and lf: "\<forall>l\<in>set ls. LF \<notin> set l"
    and cr: "\<forall>l\<in>set ls. is_comment l \<longrightarrow> \<not> ends_with_CR l"
  shows "parse_sections (split_lines (join_mixed ls seps)) = parse_sections ls"
proof -
  have "list_all2 same_line ls (split_lines (join_mixed ls seps))"
    using ne lf by (rule split_join_mixed)
  then have "list_all2 (\<lambda>l l'. trim l' = trim l \<and> (is_comment l \<longrightarrow> l' = l)) ls
      (split_lines (join_mixed ls seps))"
  proof (rule list.rel_mono_strong)
    fix l l' assume l: "l \<in> set ls" and s: "same_line l l'"
    have "is_comment l \<longrightarrow> l' = l" using s cr l by (auto simp: same_line_def chomp_cr_id)
    then show "trim l' = trim l \<and> (is_comment l \<longrightarrow> l' = l)" using s by (simp add: same_line_trim)
  qed
  then show ?thesis by (simp add: parse_sections_def smart_loop_def smart_fold_cong)
qed

lemma smart_join_mixed:
  assumes lf: "\<forall>l\<in>set ls. LF \<notin> set l"
    and cr: "\<forall>l\<in>set ls. is_comment l \<longrightarrow> \<not> ends_with_CR l"
  shows "organize_smart (join_mixed ls seps) = organize_smart (join_mixed ls seps')"
proof (cases "ls = []")
  case True
  then show ?thesis by simp
next
  case False
  show ?thesis unfolding organize_smart_def parse_join_mixed[OF False lf cr] ..
qed


section \<open>Carriage returns in the output\<close>

lemma has_crlf_LF [simp]: "has_crlf (LF # rest) = has_crlf rest"
  by (cases rest) simp_all

lemma ends_with_CR_simps [simp]:
  "\<not> ends_with_CR []" "ends_with_CR [c] = (c = CR)" "ends_with_CR (c # d # l) = ends_with_CR (d # l)"
  by (simp_all add: ends_with_CR_def)

lemma has_crlf_line:
  "LF \<notin> set l \<Longrightarrow> has_crlf (l @ LF # rest) = (ends_with_CR l \<or> has_crlf rest)"
  by (induction l rule: induct_list012) auto

lemma has_crlf_unlines:
  "\<forall>l\<in>set T. LF \<notin> set l \<Longrightarrow> has_crlf (unlines T) = (\<exists>l\<in>set T. ends_with_CR l)"
  by (induction T) (simp_all add: has_crlf_line)

lemma good_rule_no_CR: "good_rule r \<Longrightarrow> \<not> ends_with_CR r"
  by (auto simp: good_rule_def ends_with_CR_def)

lemma flat_no_crlf: "\<not> has_crlf (organize_flat x)"
proof (cases "sort (flat_clean (split_lines x)) = []")
  case True
  then show ?thesis by (simp add: organize_flat_def)
next
  case False
  let ?T = "sort (flat_clean (split_lines x))"
  have g: "\<forall>r\<in>set ?T. good_rule r" using flat_sorted_good by blast
  have "organize_flat x = unlines ?T" using False by (simp add: organize_flat_def join_unlines)
  moreover have "has_crlf (unlines ?T) = (\<exists>l\<in>set ?T. ends_with_CR l)"
    using good_rules_LF_free[OF g] by (rule has_crlf_unlines)
  ultimately show ?thesis using g good_rule_no_CR by auto
qed

lemma out_lines_no_CR:
  assumes g: "good_section sec" and n: "\<forall>c\<in>set (comments sec). \<not> ends_with_CR c"
  shows "\<forall>l\<in>set (out_lines sec). \<not> ends_with_CR l"
proof -
  have "\<forall>r\<in>set (uniqueRules sec). \<not> ends_with_CR r"
    using g good_rule_no_CR by (auto simp: good_section_def set_uniqueRules)
  then show ?thesis using out_comments_no_CR[OF g n] by (auto simp: out_lines_def)
qed

lemma all_lines_no_CR:
  "\<forall>sec\<in>set secs. good_section sec \<and> (\<forall>c\<in>set (comments sec). \<not> ends_with_CR c) \<Longrightarrow>
     \<forall>l\<in>set (all_lines secs). \<not> ends_with_CR l"
proof (induction secs rule: induct_list012)
  case 1
  then show ?case by simp
next
  case (2 s)
  then have "good_section s" "\<forall>c\<in>set (comments s). \<not> ends_with_CR c" by simp_all
  then have "\<forall>l\<in>set (out_lines s). \<not> ends_with_CR l" by (rule out_lines_no_CR)
  then show ?case by simp
next
  case (3 s s' ss)
  from 3(3) have "good_section s" "\<forall>c\<in>set (comments s). \<not> ends_with_CR c" by simp_all
  then have a: "\<forall>l\<in>set (out_lines s). \<not> ends_with_CR l" by (rule out_lines_no_CR)
  from 3(3) have "\<forall>sec\<in>set (s' # ss). good_section sec \<and> (\<forall>c\<in>set (comments sec). \<not> ends_with_CR c)"
    by simp
  then have b: "\<forall>l\<in>set (all_lines (s' # ss)). \<not> ends_with_CR l" by (rule 3(2))
  have "set (all_lines (s # s' # ss)) = set (out_lines s) \<union> {[]} \<union> set (all_lines (s' # ss))"
    by simp
  then show ?case using a b by auto
qed

lemma render_all_no_crlf:
  assumes lf: "\<forall>l\<in>set ls. LF \<notin> set l"
    and cr: "\<forall>l\<in>set ls. is_comment l \<longrightarrow> \<not> ends_with_CR l"
  shows "\<not> has_crlf (render_all (parse_sections ls))"
proof -
  let ?secs = "parse_sections ls"
  have g: "\<forall>sec\<in>set ?secs. good_section sec" using parse_sections_good(1)[OF lf] by blast
  have "\<forall>c\<in>set (comments sec). \<not> ends_with_CR c" if "sec \<in> set ?secs" for sec
  proof -
    have "set (comments sec) \<subseteq> set ls" using parse_sections_good(2)[OF lf that] .
    moreover have "\<forall>c\<in>set (comments sec). is_comment c"
      using parse_sections_good(1)[OF lf that] by (simp add: good_section_def)
    ultimately show ?thesis using cr by blast
  qed
  then have "\<forall>l\<in>set (all_lines ?secs). \<not> ends_with_CR l"
    using g by (intro all_lines_no_CR) blast
  moreover have "has_crlf (unlines (all_lines ?secs)) = (\<exists>l\<in>set (all_lines ?secs). ends_with_CR l)"
    using all_lines_LF_free[OF g] by (rule has_crlf_unlines)
  ultimately show ?thesis using render_all_unlines[OF g] by simp
qed

lemma smart_join_mixed_no_crlf:
  assumes lf: "\<forall>l\<in>set ls. LF \<notin> set l"
    and cr: "\<forall>l\<in>set ls. is_comment l \<longrightarrow> \<not> ends_with_CR l"
  shows "\<not> has_crlf (organize_smart (join_mixed ls seps))"
proof (cases "ls = []")
  case True
  then show ?thesis by (simp add: organize_smart_def parse_sections_def smart_loop_def
    push_last_def render_all_def smart_step_def empty_section_def)
next
  case False
  show ?thesis unfolding organize_smart_def parse_join_mixed[OF False lf cr]
    using lf cr by (rule render_all_no_crlf)
qed


section \<open>Concrete scenarios\<close>

text \<open>
  C6 (scenario D): a comment directly after a rule, with no blank line between them,
  closes the section of the rule; the rule \<^verbatim>\<open>a\<close> is rendered as a section without
  header, then one blank line, then the commented section.
\<close>

theorem scenario_D_implicit_break:
  "organize (js ''a\<newline># New Section\<newline>b\<newline>'') Smart
     = js ''a\<newline>\<newline># New Section\<newline>b\<newline>''"
  by code_simp

text \<open>
  C9: on the empty input both modes return the string consisting of one line feed:
  the joined body is empty and the trailing line feed is appended to it.
\<close>

theorem organize_empty_input:
  "organize [] Smart = [LF] \<and> organize [] Flat = [LF]"
  by code_simp

section \<open>The section-break rules of the parser\<close>

text \<open>
  C1: after any lines \<open>ls\<close> have been read, with the loop holding \<open>sections\<close> and
  \<open>currentSection\<close>, the next line \<open>l\<close> is handled as follows. A comment line met
  while the current section has a rule pushes the current section and opens a new one
  whose comments are that line alone. A rule line is added, trimmed, to the rules of the
  current section and pushes nothing; in particular a rule after comments stays in the
  section of these comments. A line that is empty after trimming pushes the current
  section and opens an empty one exactly when the current section has a comment or a
  rule, and changes nothing otherwise.
\<close>

theorem section_break_rules:
  "smart_loop ls = (sections, currentSection) \<Longrightarrow>
     (startsWithHash (trim l) \<and> rules currentSection \<noteq> [] \<longrightarrow>
        smart_loop (ls @ [l]) = (sections @ [currentSection], \<lparr>comments = [l], rules = []\<rparr>))
   \<and> (trim l \<noteq> [] \<and> \<not> startsWithHash (trim l) \<longrightarrow>
        smart_loop (ls @ [l]) =
          (sections, \<lparr>comments = comments currentSection, rules = rules currentSection @ [trim l]\<rparr>))
   \<and> (trim l = [] \<longrightarrow>
        smart_loop (ls @ [l]) =
          (if comments currentSection \<noteq> [] \<or> rules currentSection \<noteq> []
           then (sections @ [currentSection], \<lparr>comments = [], rules = []\<rparr>)
           else (sections, currentSection)))"
proof -
  assume st: "smart_loop ls = (sections, currentSection)"
  have c: "startsWithHash (trim l) \<and> rules currentSection \<noteq> [] \<longrightarrow>
        smart_loop (ls @ [l]) = (sections @ [currentSection], \<lparr>comments = [l], rules = []\<rparr>)"
    by (simp add: smart_loop_snoc st step_comment is_comment_def)
  have r: "trim l \<noteq> [] \<and> \<not> startsWithHash (trim l) \<longrightarrow>
        smart_loop (ls @ [l]) =
          (sections, \<lparr>comments = comments currentSection, rules = rules currentSection @ [trim l]\<rparr>)"
    by (simp add: smart_loop_snoc st step_rule is_rule_def)
  have b: "trim l = [] \<longrightarrow>
        smart_loop (ls @ [l]) =
          (if comments currentSection \<noteq> [] \<or> rules currentSection \<noteq> []
           then (sections @ [currentSection], \<lparr>comments = [], rules = []\<rparr>)
           else (sections, currentSection))"
    by (simp add: smart_loop_snoc st step_blank empty_section_def)
  from c r b show ?thesis by blast
qed

theorem section_break_rules_witness:
  "smart_loop [js ''# h'', js ''a''] = ([], \<lparr>comments = [js ''# h''], rules = [js ''a'']\<rparr>)
   \<and> smart_loop ([js ''# h'', js ''a''] @ [js '' # c'']) =
        ([\<lparr>comments = [js ''# h''], rules = [js ''a'']\<rparr>], \<lparr>comments = [js '' # c''], rules = []\<rparr>)
   \<and> smart_loop ([js ''# h'', js ''a''] @ [js '' b '']) =
        ([], \<lparr>comments = [js ''# h''], rules = [js ''a'', js ''b'']\<rparr>)
   \<and> smart_loop ([js ''# h'', js ''a''] @ [js ''  '']) =
        ([\<lparr>comments = [js ''# h''], rules = [js ''a'']\<rparr>], \<lparr>comments = [], rules = []\<rparr>)"
proof -
  have h: "smart_loop [js ''# h'', js ''a''] = ([], \<lparr>comments = [js ''# h''], rules = [js ''a'']\<rparr>)"
    by code_simp
  have c: "startsWithHash (trim (js '' # c''))" by code_simp
  have r: "trim (js '' b '') = js ''b''" by code_simp
  have r': "js ''b'' \<noteq> [] \<and> \<not> startsWithHash (js ''b'')" by code_simp
  have b: "trim (js ''  '') = []" by code_simp
  show ?thesis
    using section_break_rules[OF h, of "js '' # c''"] section_break_rules[OF h, of "js '' b ''"]
      section_break_rules[OF h, of "js ''  ''"] h c r r' b
    by simp
qed

section \<open>Flat sort: comments are removed\<close>

text \<open>
  C7: in flat mode, when every line of the input is blank or a comment (its trimmed
  form is empty or starts with \<^verbatim>\<open>#\<close>), the output is the single line feed; and for
  every input, no line of the flat output starts with \<^verbatim>\<open>#\<close>, trimmed or not.
\<close>

theorem flat_only_comments_and_blanks:
  "((\<forall>l\<in>set (split_lines x). trim l = [] \<or> startsWithHash (trim l)) \<longrightarrow> organize x Flat = [LF])
   \<and> (\<forall>l\<in>set (split_lines (organize x Flat)). \<not> startsWithHash l \<and> \<not> startsWithHash (trim l))"
proof (intro conjI impI ballI)
  assume "\<forall>l\<in>set (split_lines x). trim l = [] \<or> startsWithHash (trim l)"
  then show "organize x Flat = [LF]" by (simp only: organize.simps flat_no_rules)
next
  fix l assume "l \<in> set (split_lines (organize x Flat))"
  then have "l \<in> set (split_lines (organize_flat x))" by (simp only: organize.simps)
  then have "\<not> startsWithHash l \<and> \<not> startsWithHash (trim l)" by (rule flat_no_comment_line)
  then show "\<not> startsWithHash l" "\<not> startsWithHash (trim l)" by blast+
qed

theorem flat_only_comments_and_blanks_witness:
  "list_all (\<lambda>l. trim l = [] \<or> startsWithHash (trim l))
      (split_lines (js ''#a\<newline>  \<newline> #''))
   \<and> organize (js ''#a\<newline>  \<newline> #'') Flat = [LF]
   \<and> list_all (\<lambda>l. \<not> startsWithHash l \<and> \<not> startsWithHash (trim l))
      (split_lines (organize (js ''b\<newline># keep\<newline>a\<newline>a\<newline>'') Flat))"
proof -
  let ?X = "js ''#a\<newline>  \<newline> #''"
  let ?Y = "js ''b\<newline># keep\<newline>a\<newline>a\<newline>''"
  have h: "list_all (\<lambda>l. trim l = [] \<or> startsWithHash (trim l)) (split_lines ?X)"
    by code_simp
  then have h': "\<forall>l\<in>set (split_lines ?X). trim l = [] \<or> startsWithHash (trim l)"
    by (simp only: list_all_iff)
  have a: "organize ?X Flat = [LF]"
    by (rule flat_only_comments_and_blanks[of ?X, THEN conjunct1, THEN mp, OF h'])
  have b: "list_all (\<lambda>l. \<not> startsWithHash l \<and> \<not> startsWithHash (trim l))
      (split_lines (organize ?Y Flat))"
    unfolding list_all_iff by (rule flat_only_comments_and_blanks[of ?Y, THEN conjunct2])
  show ?thesis by (rule conjI[OF h conjI[OF a b]])
qed

section \<open>Idempotence\<close>

text \<open>
  C2, as stated, fails in smart mode: a comment line is kept with a carriage return at
  its end, the rendered output then holds CR LF after the comment, and a second run splits
  there and drops the carriage return. For the input \<^verbatim>\<open>#\r\r\na\<close> the first run gives
  \<^verbatim>\<open>#\r\na\n\<close> and the second \<^verbatim>\<open>#\na\n\<close>.
\<close>

theorem organize_idempotent_counterexample:
  "organize (organize [HASH, CR, CR, LF, 0x61] Smart) Smart \<noteq> organize [HASH, CR, CR, LF, 0x61] Smart"
  by code_simp

text \<open>
  C2, amended: flat mode is idempotent for every input; smart mode is idempotent for
  every input in which no comment line (a line of the split input whose trimmed form
  starts with \<^verbatim>\<open>#\<close>) ends with a carriage return.
\<close>

theorem organize_idempotent:
  "organize (organize x Flat) Flat = organize x Flat
   \<and> ((\<forall>l\<in>set (split_lines x). startsWithHash (trim l) \<longrightarrow> \<not> ends_with_CR l) \<longrightarrow>
        organize (organize x Smart) Smart = organize x Smart)"
proof (intro conjI impI)
  show "organize (organize x Flat) Flat = organize x Flat"
    by (simp only: organize.simps organize_flat_idem)
next
  assume "\<forall>l\<in>set (split_lines x). startsWithHash (trim l) \<longrightarrow> \<not> ends_with_CR l"
  then have "\<forall>l\<in>set (split_lines x). is_comment l \<longrightarrow> \<not> ends_with_CR l"
    by (simp only: is_comment_def)
  then have "organize_smart (organize_smart x) = organize_smart x" by (rule organize_smart_idem)
  then show "organize (organize x Smart) Smart = organize x Smart" by (simp only: organize.simps)
qed

theorem organize_idempotent_witness:
  "list_all (\<lambda>l. startsWithHash (trim l) \<longrightarrow> \<not> ends_with_CR l)
      (split_lines (js ''b\<newline> # c'' @ [CR, LF] @ js ''a\<newline>\<newline>#d''))
   \<and> organize (organize (js ''b\<newline> # c'' @ [CR, LF] @ js ''a\<newline>\<newline>#d'') Smart) Smart
       = organize (js ''b\<newline> # c'' @ [CR, LF] @ js ''a\<newline>\<newline>#d'') Smart
   \<and> organize (js ''b\<newline> # c'' @ [CR, LF] @ js ''a\<newline>\<newline>#d'') Smart
       = js ''b\<newline>\<newline># c\<newline>a\<newline>\<newline>#d\<newline>''"
proof -
  let ?X = "js ''b\<newline> # c'' @ [CR, LF] @ js ''a\<newline>\<newline>#d''"
  have h: "list_all (\<lambda>l. startsWithHash (trim l) \<longrightarrow> \<not> ends_with_CR l) (split_lines ?X)"
    by code_simp
  then have h': "\<forall>l\<in>set (split_lines ?X). startsWithHash (trim l) \<longrightarrow> \<not> ends_with_CR l"
    by (simp only: list_all_iff)
  have a: "organize (organize ?X Smart) Smart = organize ?X Smart"
    by (rule organize_idempotent[of ?X, THEN conjunct2, THEN mp, OF h'])
  have b: "organize ?X Smart = js ''b\<newline>\<newline># c\<newline>a\<newline>\<newline>#d\<newline>''"
    by code_simp
  show ?thesis by (rule conjI[OF h conjI[OF a b]])
qed

section \<open>Sorted rules\<close>

text \<open>
  C4, as stated, fails: the default sort compares strings by UTF-16 code units, not by
  code points. U+FF61 is one code unit, 0xFF61; U+1F600 is the surrogate pair 0xD83D
  0xDE00. The pair is put first, since 0xD83D is below 0xFF61, although the code point
  U+1F600 is above U+FF61.
\<close>

theorem rules_sorted_counterexample:
  "organize [0xFF61, LF, 0xD83D, 0xDE00] Flat = [0xD83D, 0xDE00, LF, 0xFF61, LF]
   \<and> \<not> sorted (map code_points (rule_lines (split_lines (organize [0xFF61, LF, 0xD83D, 0xDE00] Flat))))"
  by code_simp

text \<open>
  C4, amended: for every input, the rule lines of each section of the smart output, and
  the rule lines of the whole flat output, are in non-decreasing lexicographic order of
  their UTF-16 code units (the order \<open>\<le>\<close> on lists of words, with no locale, no case
  folding and no special case for any character); when the input holds no surrogate
  code unit this is the order of the code points as well. The sections are those the
  parser of the program reads from the output, which are the rendered sections one for
  one (\<open>parse_organize_smart\<close>).
\<close>

theorem rules_sorted:
  "(\<forall>sec\<in>set (parse_sections (split_lines (organize x Smart))). sorted (rules sec))
   \<and> sorted (rule_lines (split_lines (organize x Flat)))
   \<and> ((\<forall>c\<in>set x. \<not> is_surrogate c) \<longrightarrow>
        (\<forall>sec\<in>set (parse_sections (split_lines (organize x Smart))).
            sorted (map code_points (rules sec)))
        \<and> sorted (map code_points (rule_lines (split_lines (organize x Flat)))))"
proof -
  have s: "sorted (rules sec)" and s': "set (rules sec) \<subseteq> set (rule_lines (split_lines x))"
    if "sec \<in> set (parse_sections (split_lines (organize x Smart)))" for sec
  proof -
    from that have m: "sec \<in> set (parse_sections (split_lines (organize_smart x)))"
      by (simp only: organize.simps)
    show "sorted (rules sec)" using m by (rule smart_sections_rules(1))
    show "set (rules sec) \<subseteq> set (rule_lines (split_lines x))" using m by (rule smart_rules_from_input)
  qed
  have "sorted (rule_lines (split_lines (organize_flat x)))"
    unfolding rule_lines_organize_flat by simp
  then have f: "sorted (rule_lines (split_lines (organize x Flat)))" by (simp only: organize.simps)
  have f': "set (rule_lines (split_lines (organize x Flat))) = set (rule_lines (split_lines x))"
    by (simp only: organize.simps flat_rules_from_input)
  have bmp: "\<forall>r\<in>set rs. \<forall>c\<in>set r. \<not> is_surrogate c"
    if "\<forall>c\<in>set x. \<not> is_surrogate c" "set rs \<subseteq> set (rule_lines (split_lines x))" for rs
    using that rule_lines_chars[of _ x] by blast
  have c1: "sorted (map code_points (rules sec))"
    if "\<forall>c\<in>set x. \<not> is_surrogate c" "sec \<in> set (parse_sections (split_lines (organize x Smart)))" for sec
    using s[OF that(2)] bmp[OF that(1) s'[OF that(2)]] by (rule sorted_code_points)
  have c2: "sorted (map code_points (rule_lines (split_lines (organize x Flat))))"
    if "\<forall>c\<in>set x. \<not> is_surrogate c"
    using f bmp[OF that, of "rule_lines (split_lines (organize x Flat))"] f'
    by (intro sorted_code_points) simp_all
  show ?thesis using s f c1 c2 by blast
qed

theorem rules_sorted_witness:
  "organize (js ''#h\<newline>b\<newline>!a\<newline>/b\<newline>B'') Smart = js ''#h\<newline>!a\<newline>/b\<newline>B\<newline>b\<newline>''
   \<and> list_all (\<lambda>sec. sorted (rules sec))
        (parse_sections (split_lines (organize (js ''#h\<newline>b\<newline>!a\<newline>/b\<newline>B'') Smart)))
   \<and> list_all (\<lambda>c. \<not> is_surrogate c) (js ''#h\<newline>b\<newline>!a\<newline>/b\<newline>B'')
   \<and> sorted (map code_points (rule_lines (split_lines (organize (js ''#h\<newline>b\<newline>!a\<newline>/b\<newline>B'') Flat))))"
proof -
  let ?X = "js ''#h\<newline>b\<newline>!a\<newline>/b\<newline>B''"
  have a: "organize ?X Smart = js ''#h\<newline>!a\<newline>/b\<newline>B\<newline>b\<newline>''" by code_simp
  have b: "list_all (\<lambda>sec. sorted (rules sec)) (parse_sections (split_lines (organize ?X Smart)))"
    unfolding list_all_iff by (rule rules_sorted[of ?X, THEN conjunct1])
  have c: "list_all (\<lambda>c. \<not> is_surrogate c) ?X" by code_simp
  then have c': "\<forall>c\<in>set ?X. \<not> is_surrogate c" by (simp only: list_all_iff)
  have d: "sorted (map code_points (rule_lines (split_lines (organize ?X Flat))))"
    by (rule rules_sorted[of ?X, THEN conjunct2, THEN conjunct2, THEN mp, OF c', THEN conjunct2])
  show ?thesis by (rule conjI[OF a conjI[OF b conjI[OF c d]]])
qed

section \<open>No duplicate rules\<close>

text \<open>
  C5: for every input, when the smart output is read by the parser of the program, the
  rules of each of its sections (the trimmed rule lines of that rendered section, in the
  order of the output) are pairwise different; and the trimmed rule lines of the whole
  flat output are pairwise different. The sections read from the output are the rendered
  sections of the input, one for one: their rules are the sorted duplicate-free rules
  that were rendered.
\<close>

theorem no_duplicate_rules:
  "(\<forall>sec\<in>set (parse_sections (split_lines (organize x Smart))). distinct (rules sec))
   \<and> distinct (rule_lines (split_lines (organize x Flat)))
   \<and> map rules (parse_sections (split_lines (organize x Smart)))
       = map uniqueRules (parse_sections (split_lines x))"
proof (intro conjI ballI)
  fix sec assume "sec \<in> set (parse_sections (split_lines (organize x Smart)))"
  then have "sec \<in> set (parse_sections (split_lines (organize_smart x)))"
    by (simp only: organize.simps)
  then show "distinct (rules sec)" by (rule smart_sections_rules(2))
next
  have "distinct (rule_lines (split_lines (organize_flat x)))"
    unfolding rule_lines_organize_flat flat_clean_eq by simp
  then show "distinct (rule_lines (split_lines (organize x Flat)))" by (simp only: organize.simps)
next
  show "map rules (parse_sections (split_lines (organize x Smart)))
       = map uniqueRules (parse_sections (split_lines x))"
    by (simp add: parse_organize_smart read_section_def comp_def)
qed

theorem no_duplicate_rules_witness:
  "organize (js ''#h\<newline>b\<newline>a\<newline> b \<newline>\<newline>b'') Smart = js ''#h\<newline>a\<newline>b\<newline>\<newline>b\<newline>''
   \<and> list_all (\<lambda>sec. distinct (rules sec))
        (parse_sections (split_lines (organize (js ''#h\<newline>b\<newline>a\<newline> b \<newline>\<newline>b'') Smart)))
   \<and> organize (js ''#h\<newline>b\<newline>a\<newline> b \<newline>\<newline>b'') Flat = js ''a\<newline>b\<newline>''
   \<and> distinct (rule_lines (split_lines (organize (js ''#h\<newline>b\<newline>a\<newline> b \<newline>\<newline>b'') Flat)))"
proof -
  let ?X = "js ''#h\<newline>b\<newline>a\<newline> b \<newline>\<newline>b''"
  have a: "organize ?X Smart = js ''#h\<newline>a\<newline>b\<newline>\<newline>b\<newline>''" by code_simp
  have b: "list_all (\<lambda>sec. distinct (rules sec)) (parse_sections (split_lines (organize ?X Smart)))"
    unfolding list_all_iff by (rule no_duplicate_rules[of ?X, THEN conjunct1])
  have c: "organize ?X Flat = js ''a\<newline>b\<newline>''" by code_simp
  have d: "distinct (rule_lines (split_lines (organize ?X Flat)))"
    by (rule no_duplicate_rules[of ?X, THEN conjunct2, THEN conjunct1])
  show ?thesis by (rule conjI[OF a conjI[OF b conjI[OF c d]]])
qed

section \<open>Flat sort after section-aware sort\<close>

text \<open>
  C10: organizing in smart mode and then in flat mode gives the flat result of the
  input itself, for every input: the rule lines of the smart output are the trimmed rule
  lines of the input, and its comment and blank lines are dropped by the flat sort.
\<close>

theorem flat_absorbs_smart:
  "organize (organize x Smart) Flat = organize x Flat
   \<and> set (rule_lines (split_lines (organize x Smart))) = set (rule_lines (split_lines x))"
  by (simp only: organize.simps flat_of_smart smart_rule_set)

section \<open>Line endings\<close>

text \<open>
  C8, as stated, fails in smart mode on a comment line that ends with a carriage return:
  the two lines \<^verbatim>\<open>#\r\<close> and \<^verbatim>\<open>a\<close> joined by CR LF are split into the same two lines
  and give the output \<^verbatim>\<open>#\r\na\n\<close>, which holds a CR LF line ending; joined by LF they
  are split into \<^verbatim>\<open>#\<close> and \<^verbatim>\<open>a\<close> and give \<^verbatim>\<open>#\na\n\<close>.
\<close>

theorem line_endings_counterexample:
  "join_mixed [[HASH, CR], [0x61]] [True] = [HASH, CR, CR, LF, 0x61]
   \<and> join_mixed [[HASH, CR], [0x61]] [False] = [HASH, CR, LF, 0x61]
   \<and> organize [HASH, CR, CR, LF, 0x61] Smart = [HASH, CR, LF, 0x61, LF]
   \<and> organize [HASH, CR, LF, 0x61] Smart = [HASH, LF, 0x61, LF]
   \<and> organize [HASH, CR, CR, LF, 0x61] Smart \<noteq> organize [HASH, CR, LF, 0x61] Smart
   \<and> has_crlf (organize [HASH, CR, CR, LF, 0x61] Smart)"
  by code_simp

text \<open>
  C8, amended: for lines that hold no line feed, joined by any mix of LF and CR LF:
  in flat mode the output does not depend on the separators chosen and never holds
  CR LF; in smart mode the same is true when no comment line ends with a carriage
  return.
\<close>

theorem line_endings_insensitive:
  "(\<forall>l\<in>set ls. LF \<notin> set l) \<Longrightarrow>
     organize (join_mixed ls seps) Flat = organize (join_mixed ls seps') Flat
   \<and> \<not> has_crlf (organize (join_mixed ls seps) Flat)
   \<and> ((\<forall>l\<in>set ls. startsWithHash (trim l) \<longrightarrow> \<not> ends_with_CR l) \<longrightarrow>
        organize (join_mixed ls seps) Smart = organize (join_mixed ls seps') Smart
        \<and> \<not> has_crlf (organize (join_mixed ls seps) Smart))"
proof (intro conjI impI)
  assume lf: "\<forall>l\<in>set ls. LF \<notin> set l"
  show "organize (join_mixed ls seps) Flat = organize (join_mixed ls seps') Flat"
    unfolding organize.simps using lf by (rule flat_join_mixed)
  show "\<not> has_crlf (organize (join_mixed ls seps) Flat)"
    unfolding organize.simps by (rule flat_no_crlf)
  assume "\<forall>l\<in>set ls. startsWithHash (trim l) \<longrightarrow> \<not> ends_with_CR l"
  then have cr: "\<forall>l\<in>set ls. is_comment l \<longrightarrow> \<not> ends_with_CR l" by (simp only: is_comment_def)
  show "organize (join_mixed ls seps) Smart = organize (join_mixed ls seps') Smart"
    unfolding organize.simps using lf cr by (rule smart_join_mixed)
  show "\<not> has_crlf (organize (join_mixed ls seps) Smart)"
    unfolding organize.simps using lf cr by (rule smart_join_mixed_no_crlf)
qed

theorem line_endings_insensitive_witness:
  "list_all (\<lambda>l. LF \<notin> set l) [js '' # c'', js ''b'', [], js ''a'']
   \<and> list_all (\<lambda>l. startsWithHash (trim l) \<longrightarrow> \<not> ends_with_CR l) [js '' # c'', js ''b'', [], js ''a'']
   \<and> join_mixed [js '' # c'', js ''b'', [], js ''a''] [True, False, True]
        = js '' # c'' @ [CR, LF] @ js ''b'' @ [LF, CR, LF] @ js ''a''
   \<and> join_mixed [js '' # c'', js ''b'', [], js ''a''] [] = js '' # c\<newline>b\<newline>\<newline>a''
   \<and> organize (join_mixed [js '' # c'', js ''b'', [], js ''a''] [True, False, True]) Smart
        = organize (join_mixed [js '' # c'', js ''b'', [], js ''a''] []) Smart
   \<and> organize (join_mixed [js '' # c'', js ''b'', [], js ''a''] [True, False, True]) Flat
        = organize (join_mixed [js '' # c'', js ''b'', [], js ''a''] []) Flat
   \<and> \<not> has_crlf (organize (join_mixed [js '' # c'', js ''b'', [], js ''a''] [True, False, True]) Smart)"
proof -
  let ?ls = "[js '' # c'', js ''b'', [], js ''a'']"
  have a: "list_all (\<lambda>l. LF \<notin> set l) ?ls" by code_simp
  then have a': "\<forall>l\<in>set ?ls. LF \<notin> set l" by (simp only: list_all_iff)
  have b: "list_all (\<lambda>l. startsWithHash (trim l) \<longrightarrow> \<not> ends_with_CR l) ?ls" by code_simp
  then have b': "\<forall>l\<in>set ?ls. startsWithHash (trim l) \<longrightarrow> \<not> ends_with_CR l"
    by (simp only: list_all_iff)
  have c: "join_mixed ?ls [True, False, True] = js '' # c'' @ [CR, LF] @ js ''b'' @ [LF, CR, LF] @ js ''a''"
    by code_simp
  have d: "join_mixed ?ls [] = js '' # c\<newline>b\<newline>\<newline>a''" by code_simp
  note t = line_endings_insensitive[OF a', of "[True, False, True]" "[]"]
  note s = t[THEN conjunct2, THEN conjunct2, THEN mp, OF b']
  show ?thesis
    by (rule conjI[OF a conjI[OF b conjI[OF c conjI[OF d conjI[OF s[THEN conjunct1]
          conjI[OF t[THEN conjunct1] s[THEN conjunct2]]]]]]])
qed

section \<open>Comment lines in the smart output\<close>

text \<open>
  C3: every comment line of the input appears unchanged in the smart output. The code
  pushes the untrimmed line (its comment says ``keep line as is''), but the rendered
  section is trimmed as a whole, which removes the indentation of the first comment of
  each section: the line \<^verbatim>\<open>  # Logs\<close> of the input is not a line of the output.
\<close>

theorem first_comment_indentation_lost:
  "organize (js ''  # Logs\<newline>*.log\<newline>'') Smart = js ''# Logs\<newline>*.log\<newline>''
   \<and> js ''  # Logs'' \<in> set (split_lines (js ''  # Logs\<newline>*.log\<newline>''))
   \<and> js ''  # Logs'' \<notin> set (split_lines (organize (js ''  # Logs\<newline>*.log\<newline>'') Smart))"
  by code_simp

end
